theory Spec2Isabelle
  imports Complex_Main "HOL-Library.Multiset" "HOL-Library.Sublist" "HOL-Library.Code_Target_Nat"
begin

section \<open>The run coordinator (the arena-generator element)\<close>

subsection \<open>Data\<close>

text \<open>
  \<^verbatim>\<open>type TLLM = { name; parameters; size; family; selected }\<close>.
  The fields carry the prefix \<open>llm_\<close> since \<open>size\<close> is taken in HOL.
\<close>

record TLLM =
  llm_name :: string
  llm_parameters :: string
  llm_size :: nat
  llm_family :: string
  llm_selected :: bool

text \<open>
  One entry of the backend's model listing, as far as \<open>firstUpdated\<close> reads it:
  \<open>model.name\<close>, \<open>model.details.parameter_size\<close>, \<open>model.size\<close>,
  \<open>model.details.family\<close>.
\<close>

record ModelResponse =
  mr_name :: string
  mr_parameter_size :: string
  mr_size :: nat
  mr_family :: string

text \<open>
  The backend's answer to one chat request, as far as \<open>_handleClick\<close> reads it
  (\<open>response.message.content\<close> is \<open>resp_message_content\<close>). Counts are token counts and
  durations are whole nanoseconds, so they are natural numbers.
\<close>

record ChatResponse =
  resp_created_at :: string
  resp_message_content :: string
  resp_total_duration :: nat
  resp_load_duration :: nat
  resp_prompt_eval_count :: nat
  resp_prompt_eval_duration :: nat
  resp_eval_count :: nat
  resp_eval_duration :: nat

text \<open>
  A row of the \<open>responses\<close> table (\<open>TResponse\<close> in the viewer, the object handed to
  \<open>responses.add\<close> in the generator). The auto-incremented key \<open>id++\<close> is the row's
  position in the table, which is kept in key order; \<open>size\<close> is \<open>size_bytes\<close> here.
\<close>

record TResponse =
  created_at :: string
  eval_count :: nat
  eval_duration :: nat
  model_family :: string
  load_duration :: nat
  message :: string
  model_name :: string
  parameters :: string
  prompt_eval_count :: nat
  prompt_eval_duration :: nat
  query :: string
  size_bytes :: nat
  started :: string
  total_duration :: nat
  group_id :: string

text \<open>
  An entry of the in-memory list \<open>_results\<close>:
  \<open>{ ...response, ...llm, query: queryInput, started: new Date().toISOString() }\<close>.
  The spread copies the descriptor's fields as they are when the entry is built.
\<close>

record result_entry =
  res_response :: ChatResponse
  res_llm :: TLLM
  res_query :: string
  res_started :: string

subsection \<open>The asynchronous callbacks as resumable tasks\<close>

text \<open>
  \<open>_handleClick\<close> starts one \<open>async\<close> callback per selected descriptor. A callback runs
  until its first \<open>await\<close> (the chat request), is resumed when the request settles, runs
  until its second \<open>await\<close> (the table's \<open>add\<close>), and is resumed again when that settles.
  Between two \<open>await\<close>s nothing else runs (one thread, run to completion), so the program
  counter of a callback is one of:
\<close>

datatype pc =
    AwaitChat                     \<comment> \<open>suspended at \<open>await this._ollamaInstance?.chat(..)\<close>\<close>
  | AwaitAdd "TResponse option"   \<comment> \<open>suspended at \<open>await this._dexie?.responses.add(row)\<close>;
                                      \<open>None\<close> when \<open>_dexie\<close> is undefined and nothing is written\<close>
  | Finished                      \<comment> \<open>ran to the end of the callback\<close>
  | ReturnedEarly                 \<comment> \<open>left at \<open>if (!response) return\<close>\<close>
  | ChatRejected                  \<comment> \<open>the chat request threw: the callback's promise is rejected\<close>
  | AddRejected                   \<comment> \<open>the table's \<open>add\<close> threw: the callback's promise is rejected\<close>

text \<open>
  A callback closes over its descriptor \<open>llm\<close>, an element of the array \<open>_llm\<close> (shared with
  the check boxes, which flip its \<open>selected\<close> field in place): \<open>t_llm\<close> is its index in
  \<open>_llm\<close>.
\<close>

record task =
  t_llm :: nat
  t_pc :: pc

text \<open>
  One call of \<open>_handleClick\<close>: its local constants \<open>uuid\<close> and \<open>queryInput\<close>, its local
  variable \<open>counter\<close>, and the callbacks it started, in the order of \<open>forEach\<close>.
\<close>

record run =
  uuid :: string
  counter :: nat
  queryInput :: string
  tasks :: "task list"

text \<open>
  The element's state (\<open>_llm\<close>, \<open>_results\<close>, \<open>_running\<close>, \<open>_selectedLLM\<close>, whether
  \<open>_ollamaInstance\<close> and \<open>_dexie\<close> are defined), the calls of \<open>_handleClick\<close> made so far,
  and what the element does to the world: the rows of the \<open>responses\<close> table and the number
  of \<open>generator:done\<close> events it has dispatched. \<open>_selectedLLM\<close> holds elements of \<open>_llm\<close>,
  that is, indices.
\<close>

record ArenaGenerator =
  llm :: "TLLM list"
  results :: "result_entry list"
  running :: bool
  selectedLLM :: "nat list"
  ollamaInstance :: bool
  dexie :: bool
  runs :: "run list"
  responses :: "TResponse list"
  dispatched :: nat

subsection \<open>firstUpdated\<close>

datatype init_error = ModelNotAvailable   \<comment> \<open>\<open>new Error("Model not available")\<close>\<close>

text \<open>
  The element as constructed (the field initialisers), over the table as it is found in the
  browser.
\<close>

definition initial :: "TResponse list \<Rightarrow> ArenaGenerator" where
  "initial table =
     \<lparr>llm = [], results = [], running = False, selectedLLM = [], ollamaInstance = False,
      dexie = False, runs = [], responses = table, dispatched = 0\<rparr>"

definition toTLLM :: "ModelResponse \<Rightarrow> TLLM" where
  "toTLLM model =
     \<lparr>llm_name = mr_name model, llm_parameters = mr_parameter_size model,
      llm_size = mr_size model, llm_family = mr_family model, llm_selected = False\<rparr>"

text \<open>
  The backend is the function from the number of a \<open>list()\<close> request to its answer, a
  failure (\<open>None\<close>: the request throws) or a model listing; \<open>n\<close> is the number of
  requests sent so far. \<open>firstUpdated\<close> opens the table, creates the client and sends one
  request. It returns the number of requests sent, the state, and its own outcome (\<open>Inl\<close>:
  the rejected promise it returns from the \<open>catch\<close> block).
\<close>

definition firstUpdated ::
  "(nat \<Rightarrow> ModelResponse list option) \<Rightarrow> nat \<Rightarrow> ArenaGenerator \<Rightarrow>
     nat \<times> ArenaGenerator \<times> (init_error + unit)" where
  "firstUpdated list n s =
     (let s1 = s\<lparr>dexie := True, ollamaInstance := True\<rparr>
      in case list n of
           None \<Rightarrow> (Suc n, s1, Inl ModelNotAvailable)
         | Some models \<Rightarrow> (Suc n, s1\<lparr>llm := map toTLLM models\<rparr>, Inr ()))"

subsection \<open>_handleClick and the resumption of its callbacks\<close>

text \<open>
  What the event loop delivers to the element. A settled chat request either threw or
  resolved with a response (\<open>None\<close>: a falsy value); with it come the two readings of the
  clock (\<open>new Date().toISOString()\<close>) taken while the callback builds the entry of
  \<open>_results\<close> and the row of the table.
\<close>

datatype chat_outcome =
    ChatThrows
  | ChatResolves "ChatResponse option" string string

datatype event =
    Toggle nat                      \<comment> \<open>the check box of \<open>_llm[idx]\<close> changes\<close>
  | Click string string             \<comment> \<open>the button is clicked: the value of \<open>randomUUID()\<close>
                                        and the text of the input field\<close>
  | ChatSettled nat nat chat_outcome  \<comment> \<open>the chat request of callback \<open>i\<close> of run \<open>r\<close> settles\<close>
  | AddSettled nat nat bool         \<comment> \<open>the \<open>add\<close> of callback \<open>i\<close> of run \<open>r\<close> settles
                                        (\<open>True\<close>: the row is written)\<close>

definition toggle :: "nat \<Rightarrow> ArenaGenerator \<Rightarrow> ArenaGenerator" where
  "toggle idx s =
     (if idx < length (llm s)
      then s\<lparr>llm := (llm s)[idx := (llm s ! idx)\<lparr>llm_selected := \<not> llm_selected (llm s ! idx)\<rparr>]\<rparr>
      else s)"

definition handleClick :: "string \<Rightarrow> string \<Rightarrow> ArenaGenerator \<Rightarrow> ArenaGenerator" where
  "handleClick u q s =
     (if \<not> ollamaInstance s then s
      else
        let sel = filter (\<lambda>i. llm_selected (llm s ! i)) [0..<length (llm s)]
        in s\<lparr>selectedLLM := sel, running := True,
              runs := runs s @
                [\<lparr>uuid = u, counter = 0, queryInput = q,
                  tasks = map (\<lambda>i. \<lparr>t_llm = i, t_pc = AwaitChat\<rparr>) sel\<rparr>]\<rparr>)"

definition set_pc :: "nat \<Rightarrow> nat \<Rightarrow> pc \<Rightarrow> ArenaGenerator \<Rightarrow> ArenaGenerator" where
  "set_pc r i p s =
     s\<lparr>runs := (runs s)[r := (runs s ! r)\<lparr>tasks := (tasks (runs s ! r))[i :=
          (tasks (runs s ! r) ! i)\<lparr>t_pc := p\<rparr>]\<rparr>]\<rparr>"

definition bump_counter :: "nat \<Rightarrow> ArenaGenerator \<Rightarrow> ArenaGenerator" where
  "bump_counter r s = s\<lparr>runs := (runs s)[r := (runs s ! r)\<lparr>counter := counter (runs s ! r) + 1\<rparr>]\<rparr>"

definition make_entry :: "ChatResponse \<Rightarrow> TLLM \<Rightarrow> string \<Rightarrow> string \<Rightarrow> result_entry" where
  "make_entry response l q now =
     \<lparr>res_response = response, res_llm = l, res_query = q, res_started = now\<rparr>"

definition make_row :: "ChatResponse \<Rightarrow> TLLM \<Rightarrow> string \<Rightarrow> string \<Rightarrow> string \<Rightarrow> TResponse" where
  "make_row response l q now u =
     \<lparr>created_at = resp_created_at response,
      eval_count = resp_eval_count response,
      eval_duration = resp_eval_duration response,
      model_family = llm_family l,
      load_duration = resp_load_duration response,
      message = resp_message_content response,
      model_name = llm_name l,
      parameters = llm_parameters l,
      prompt_eval_count = resp_prompt_eval_count response,
      prompt_eval_duration = resp_prompt_eval_duration response,
      query = q,
      size_bytes = llm_size l,
      started = now,
      total_duration = resp_total_duration response,
      group_id = u\<rparr>"

text \<open>
  The callback from the first \<open>await\<close> to the second: \<open>counter += 1\<close>, the check of the
  response, the push onto \<open>_results\<close>, and the call of \<open>add\<close>.
\<close>

definition chat_settled :: "nat \<Rightarrow> nat \<Rightarrow> chat_outcome \<Rightarrow> ArenaGenerator \<Rightarrow> ArenaGenerator" where
  "chat_settled r i out s =
     (if r < length (runs s) \<and> i < length (tasks (runs s ! r)) \<and>
         t_pc (tasks (runs s ! r) ! i) = AwaitChat
      then
        (case out of
           ChatThrows \<Rightarrow> set_pc r i ChatRejected s
         | ChatResolves None now1 now2 \<Rightarrow> set_pc r i ReturnedEarly (bump_counter r s)
         | ChatResolves (Some response) now1 now2 \<Rightarrow>
             (let l = llm s ! t_llm (tasks (runs s ! r) ! i);
                  q = queryInput (runs s ! r);
                  s1 = bump_counter r s;
                  s2 = s1\<lparr>results := results s1 @ [make_entry response l q now1]\<rparr>
              in set_pc r i
                   (AwaitAdd (if dexie s then Some (make_row response l q now2 (uuid (runs s ! r)))
                              else None)) s2))
      else s)"

text \<open>
  The callback from the second \<open>await\<close> to its end: the comparison of
  \<open>this._selectedLLM.length\<close> with \<open>counter\<close>, the event, \<open>requestUpdate()\<close>.
\<close>

definition finish :: "nat \<Rightarrow> nat \<Rightarrow> ArenaGenerator \<Rightarrow> ArenaGenerator" where
  "finish r i s =
     set_pc r i Finished
       (s\<lparr>running := (if length (selectedLLM s) = counter (runs s ! r) then False else running s),
          dispatched := dispatched s + 1\<rparr>)"

definition add_settled :: "nat \<Rightarrow> nat \<Rightarrow> bool \<Rightarrow> ArenaGenerator \<Rightarrow> ArenaGenerator" where
  "add_settled r i ok s =
     (if r < length (runs s) \<and> i < length (tasks (runs s ! r))
      then
        (case t_pc (tasks (runs s ! r) ! i) of
           AwaitAdd None \<Rightarrow> finish r i s
         | AwaitAdd (Some row) \<Rightarrow>
             (if ok then finish r i (s\<lparr>responses := responses s @ [row]\<rparr>)
              else set_pc r i AddRejected s)
         | _ \<Rightarrow> s)
      else s)"

fun step :: "ArenaGenerator \<Rightarrow> event \<Rightarrow> ArenaGenerator" where
  "step s (Toggle idx) = toggle idx s"
| "step s (Click u q) = handleClick u q s"
| "step s (ChatSettled r i out) = chat_settled r i out s"
| "step s (AddSettled r i ok) = add_settled r i ok s"

definition exec :: "ArenaGenerator \<Rightarrow> event list \<Rightarrow> ArenaGenerator" where
  "exec s es = foldl step s es"

subsection \<open>Notions used to state properties of runs\<close>

text \<open>The rows of the table that carry the run identifier \<open>u\<close>.\<close>

definition rows_of :: "string \<Rightarrow> ArenaGenerator \<Rightarrow> TResponse list" where
  "rows_of u s = filter (\<lambda>row. group_id row = u) (responses s)"

text \<open>
  \<open>randomUUID()\<close> returns a fresh token: one that no row of the table and no earlier call of
  \<open>_handleClick\<close> carries, and that no later click is given again.
\<close>

definition fresh_uuid :: "string \<Rightarrow> ArenaGenerator \<Rightarrow> bool" where
  "fresh_uuid u s = (u \<notin> set (map group_id (responses s)) \<and> u \<notin> set (map uuid (runs s)))"

fun other_uuid :: "string \<Rightarrow> event \<Rightarrow> bool" where
  "other_uuid u (Click u' q) = (u' \<noteq> u)"
| "other_uuid u e = True"

fun is_click :: "event \<Rightarrow> bool" where
  "is_click (Click u q) = True"
| "is_click e = False"

text \<open>
  A row on its way to the table was built by \<open>make_row\<close> from its callback's descriptor and
  its run's constants.
\<close>

definition pending_row_ok :: "ArenaGenerator \<Rightarrow> run \<Rightarrow> task \<Rightarrow> bool" where
  "pending_row_ok s rn t =
     (case t_pc t of
        AwaitAdd (Some row) \<Rightarrow>
          group_id row = uuid rn \<and> query row = queryInput rn \<and>
          model_name row = llm_name (llm s ! t_llm t)
      | _ \<Rightarrow> True)"

definition pending_ok :: "ArenaGenerator \<Rightarrow> bool" where
  "pending_ok s = list_all (\<lambda>rn. list_all (pending_row_ok s rn) (tasks rn)) (runs s)"

text \<open>A callback that is suspended at one of its two \<open>await\<close>s.\<close>

fun suspended :: "pc \<Rightarrow> bool" where
  "suspended AwaitChat = True"
| "suspended (AwaitAdd row) = True"
| "suspended p = False"

definition quiescent :: "ArenaGenerator \<Rightarrow> bool" where
  "quiescent s = list_all (\<lambda>rn. list_all (\<lambda>t. \<not> suspended (t_pc t)) (tasks rn)) (runs s)"

text \<open>A callback whose chat request resolved, so that it ran \<open>counter += 1\<close>.\<close>

fun resolved :: "pc \<Rightarrow> bool" where
  "resolved AwaitChat = False"
| "resolved ChatRejected = False"
| "resolved p = True"

text \<open>The number of callbacks that ran to their end, over all runs.\<close>

definition n_finished :: "ArenaGenerator \<Rightarrow> nat" where
  "n_finished s = (\<Sum>rn\<leftarrow>runs s. length (filter (\<lambda>t. t_pc t = Finished) (tasks rn)))"
subsection \<open>Notions used in the proofs\<close>

text \<open>
  The names of the descriptors of the callbacks of run \<open>r\<close>, and of those among them that
  ran to their end.
\<close>

definition finished_names :: "ArenaGenerator \<Rightarrow> nat \<Rightarrow> string list" where
  "finished_names s r =
     map (\<lambda>t. llm_name (llm s ! t_llm t)) (filter (\<lambda>t. t_pc t = Finished) (tasks (runs s ! r)))"

text \<open>
  The invariant of run \<open>r\<close> with identifier \<open>u\<close> and prompt \<open>q\<close>: no other run carries
  \<open>u\<close>, and the rows of the table that carry \<open>u\<close> are those written by the callbacks of
  \<open>r\<close> that ran to their end.
\<close>

definition run_inv :: "nat \<Rightarrow> string \<Rightarrow> string \<Rightarrow> ArenaGenerator \<Rightarrow> bool" where
  "run_inv r u q s =
     (r < length (runs s) \<and> dexie s \<and> uuid (runs s ! r) = u \<and> queryInput (runs s ! r) = q \<and>
      (\<forall>j<length (runs s). j \<noteq> r \<longrightarrow> uuid (runs s ! j) \<noteq> u) \<and>
      (\<forall>i<length (tasks (runs s ! r)). t_pc (tasks (runs s ! r) ! i) \<noteq> AwaitAdd None) \<and>
      mset (map model_name (rows_of u s)) = mset (finished_names s r) \<and>
      (\<forall>row\<in>set (rows_of u s). query row = q))"

definition task_names :: "ArenaGenerator \<Rightarrow> nat \<Rightarrow> string list" where
  "task_names s r = map (\<lambda>t. llm_name (llm s ! t_llm t)) (tasks (runs s ! r))"

text \<open>
  An event is delivered to a callback that waits for it (any other is ignored), and what a
  settled chat request makes of the callback's program counter.
\<close>

definition chat_pc :: "ArenaGenerator \<Rightarrow> nat \<Rightarrow> nat \<Rightarrow> chat_outcome \<Rightarrow> pc" where
  "chat_pc s r i out =
     (case out of
        ChatThrows \<Rightarrow> ChatRejected
      | ChatResolves None now1 now2 \<Rightarrow> ReturnedEarly
      | ChatResolves (Some response) now1 now2 \<Rightarrow>
          AwaitAdd (if dexie s
                    then Some (make_row response (llm s ! t_llm (tasks (runs s ! r) ! i))
                                 (queryInput (runs s ! r)) now2 (uuid (runs s ! r)))
                    else None))"

definition chat_valid :: "ArenaGenerator \<Rightarrow> nat \<Rightarrow> nat \<Rightarrow> bool" where
  "chat_valid s r i =
     (r < length (runs s) \<and> i < length (tasks (runs s ! r)) \<and>
      t_pc (tasks (runs s ! r) ! i) = AwaitChat)"

definition add_valid :: "ArenaGenerator \<Rightarrow> nat \<Rightarrow> nat \<Rightarrow> bool" where
  "add_valid s r i =
     (r < length (runs s) \<and> i < length (tasks (runs s ! r)) \<and>
      (case t_pc (tasks (runs s ! r) ! i) of AwaitAdd p \<Rightarrow> True | _ \<Rightarrow> False))"

text \<open>What a settled \<open>add\<close> makes of the program counter, and the rows it writes.\<close>

definition add_pc :: "TResponse option \<Rightarrow> bool \<Rightarrow> pc" where
  "add_pc p ok = (case p of None \<Rightarrow> Finished | Some row \<Rightarrow> if ok then Finished else AddRejected)"

definition add_rows :: "TResponse option \<Rightarrow> bool \<Rightarrow> TResponse list" where
  "add_rows p ok = (case p of None \<Rightarrow> [] | Some row \<Rightarrow> if ok then [row] else [])"
text \<open>
  The event resumes a callback that then runs to its end: a per-request completion.
\<close>

fun completes :: "ArenaGenerator \<Rightarrow> event \<Rightarrow> bool" where
  "completes s (AddSettled r i ok) =
     (r < length (runs s) \<and> i < length (tasks (runs s ! r)) \<and>
      (case t_pc (tasks (runs s ! r) ! i) of
         AwaitAdd None \<Rightarrow> True
       | AwaitAdd (Some row) \<Rightarrow> ok
       | _ \<Rightarrow> False))"
| "completes s e = False"

fun event_run :: "event \<Rightarrow> nat" where
  "event_run (ChatSettled r i out) = r"
| "event_run (AddSettled r i ok) = r"
| "event_run e = 0"

text \<open>The counter of run \<open>r\<close> counts the callbacks of \<open>r\<close> whose chat request resolved.\<close>

definition counter_ok :: "ArenaGenerator \<Rightarrow> nat \<Rightarrow> bool" where
  "counter_ok s r =
     (counter (runs s ! r) = length (filter (\<lambda>t. resolved (t_pc t)) (tasks (runs s ! r))))"

text \<open>
  The invariant of a run \<open>r\<close> that goes on alone: no callback of another run is suspended,
  \<open>_selectedLLM\<close> is the selection of \<open>r\<close>, and the element is busy unless the counter of
  \<open>r\<close> has reached the size of the selection.
\<close>

definition alone_inv :: "nat \<Rightarrow> ArenaGenerator \<Rightarrow> bool" where
  "alone_inv r s =
     (r < length (runs s) \<and> length (selectedLLM s) = length (tasks (runs s ! r)) \<and>
      counter_ok s r \<and>
      (\<forall>j<length (runs s). j \<noteq> r \<longrightarrow>
         (\<forall>i<length (tasks (runs s ! j)). \<not> suspended (t_pc (tasks (runs s ! j) ! i)))) \<and>
      (running s \<or> counter (runs s ! r) = length (selectedLLM s)))"

text \<open>
  The entry that an event pushes onto \<open>_results\<close>: the one built by a callback that is
  resumed with a response; no other event pushes. \<open>pushed_all\<close> collects the entries of a
  sequence of events.
\<close>

fun pushed :: "ArenaGenerator \<Rightarrow> event \<Rightarrow> result_entry list" where
  "pushed s (ChatSettled r i (ChatResolves (Some response) now1 now2)) =
     (if chat_valid s r i
      then [make_entry response (llm s ! t_llm (tasks (runs s ! r) ! i)) (queryInput (runs s ! r)) now1]
      else [])"
| "pushed s e = []"

fun pushed_all :: "ArenaGenerator \<Rightarrow> event list \<Rightarrow> result_entry list" where
  "pushed_all s [] = []"
| "pushed_all s (e # es) = pushed s e @ pushed_all (step s e) es"

text \<open>A callback whose chat request resolved with a response.\<close>

fun answered :: "pc \<Rightarrow> bool" where
  "answered (AwaitAdd row) = True"
| "answered Finished = True"
| "answered AddRejected = True"
| "answered p = False"

subsection \<open>A session used as the concrete input of the examples\<close>

text \<open>
  Two models are installed and both are ticked; the prompt \<open>Hello\<close> is then submitted under
  the run identifier \<open>run-1\<close>.
\<close>

definition ex_models :: "ModelResponse list" where
  "ex_models =
     [\<lparr>mr_name = ''llama3:8b'', mr_parameter_size = ''8.0B'', mr_size = 4661224676,
       mr_family = ''llama''\<rparr>,
      \<lparr>mr_name = ''mistral:7b'', mr_parameter_size = ''7.2B'', mr_size = 4113301824,
       mr_family = ''llama''\<rparr>]"

definition ex_ready :: ArenaGenerator where
  "ex_ready =
     exec (fst (snd (firstUpdated (\<lambda>n. Some ex_models) 0 (initial [])))) [Toggle 0, Toggle 1]"

definition ex_response :: "string \<Rightarrow> string \<Rightarrow> ChatResponse" where
  "ex_response created txt =
     \<lparr>resp_created_at = created, resp_message_content = txt,
      resp_total_duration = 7000000000, resp_load_duration = 1500000000,
      resp_prompt_eval_count = 11, resp_prompt_eval_duration = 250000000,
      resp_eval_count = 42, resp_eval_duration = 5000000000\<rparr>"

definition ex_submitted :: ArenaGenerator where
  "ex_submitted = step ex_ready (Click ''run-1'' ''Hello'')"

text \<open>Both requests succeed; the second model answers first.\<close>

definition ex_schedule :: "event list" where
  "ex_schedule =
     [ChatSettled 0 1 (ChatResolves (Some (ex_response ''2025-03-01T10:00:07.000Z'' ''Hi!''))
        ''2025-03-01T10:00:07.100Z'' ''2025-03-01T10:00:07.101Z''),
      ChatSettled 0 0 (ChatResolves (Some (ex_response ''2025-03-01T10:00:09.000Z'' ''Hello.''))
        ''2025-03-01T10:00:09.100Z'' ''2025-03-01T10:00:09.101Z''),
      AddSettled 0 1 True,
      AddSettled 0 0 True]"

text \<open>The second model has answered; its row is about to be written.\<close>

definition ex_first_answered :: ArenaGenerator where
  "ex_first_answered =
     step ex_submitted
       (ChatSettled 0 1 (ChatResolves (Some (ex_response ''2025-03-01T10:00:07.000Z'' ''Hi!''))
          ''2025-03-01T10:00:07.100Z'' ''2025-03-01T10:00:07.101Z''))"

text \<open>The first request resolves with no response, the second one succeeds.\<close>

definition ex_falsy_schedule :: "event list" where
  "ex_falsy_schedule =
     [ChatSettled 0 0 (ChatResolves None ''2025-03-01T10:00:03.100Z'' ''2025-03-01T10:00:03.101Z''),
      ChatSettled 0 1 (ChatResolves (Some (ex_response ''2025-03-01T10:00:07.000Z'' ''Hi!''))
        ''2025-03-01T10:00:07.100Z'' ''2025-03-01T10:00:07.101Z''),
      AddSettled 0 1 True]"

text \<open>The first request throws, the second one succeeds.\<close>

definition ex_failing_schedule :: "event list" where
  "ex_failing_schedule =
     [ChatSettled 0 0 ChatThrows,
      ChatSettled 0 1 (ChatResolves (Some (ex_response ''2025-03-01T10:00:07.000Z'' ''Hi!''))
        ''2025-03-01T10:00:07.100Z'' ''2025-03-01T10:00:07.101Z''),
      AddSettled 0 1 True]"

text \<open>Both requests succeed, but the table rejects the row of the first model.\<close>

definition ex_write_fails_schedule :: "event list" where
  "ex_write_fails_schedule =
     [ChatSettled 0 1 (ChatResolves (Some (ex_response ''2025-03-01T10:00:07.000Z'' ''Hi!''))
        ''2025-03-01T10:00:07.100Z'' ''2025-03-01T10:00:07.101Z''),
      ChatSettled 0 0 (ChatResolves (Some (ex_response ''2025-03-01T10:00:09.000Z'' ''Hello.''))
        ''2025-03-01T10:00:09.100Z'' ''2025-03-01T10:00:09.101Z''),
      AddSettled 0 1 True,
      AddSettled 0 0 False]"

text \<open>
  The first request throws; the user then unticks the second model and submits a second
  prompt; after that the second request of the first run succeeds.
\<close>

definition ex_overtaken :: ArenaGenerator where
  "ex_overtaken =
     exec ex_submitted
       [ChatSettled 0 0 ChatThrows,
        Toggle 1,
        Click ''run-2'' ''Again'',
        ChatSettled 0 1 (ChatResolves (Some (ex_response ''2025-03-01T10:00:07.000Z'' ''Hi!''))
          ''2025-03-01T10:00:07.100Z'' ''2025-03-01T10:00:07.101Z'')]"

text \<open>Two runs, one after the other, in which every request succeeds.\<close>

definition ex_two_runs :: "event list" where
  "ex_two_runs =
     ex_schedule @
     [Click ''run-2'' ''Again'',
      ChatSettled 1 0 (ChatResolves (Some (ex_response ''2025-03-01T10:01:05.000Z'' ''Hello again.''))
        ''2025-03-01T10:01:05.100Z'' ''2025-03-01T10:01:05.101Z''),
      ChatSettled 1 1 (ChatResolves (Some (ex_response ''2025-03-01T10:01:07.000Z'' ''Hi again!''))
        ''2025-03-01T10:01:07.100Z'' ''2025-03-01T10:01:07.101Z''),
      AddSettled 1 0 True,
      AddSettled 1 1 True]"

section \<open>The exporter (the arena-viewer element)\<close>

text \<open>
  Strings are the sequences of their UTF-8 bytes, as they are written to the file. The three
  characters that the exporter replaces are single bytes, which occur in no multi-byte
  sequence.
\<close>

definition TAB :: char where "TAB = CHR 0x09"
definition LF :: char where "LF = CHR 0x0A"
definition CR :: char where "CR = CHR 0x0D"

subsection \<open>Numbers\<close>

text \<open>
  The values of the type \<open>number\<close> that arise from the fields of a row, which hold
  non-negative integers: the finite doubles (as the rationals they are), the infinities and
  NaN. A field holds its integer exactly when this is below \<open>2^53\<close>
  (\<open>Number.isSafeInteger\<close>).
\<close>

datatype number = Num rat | PosInfinity | NegInfinity | NaN

definition safe_integer :: "nat \<Rightarrow> bool" where
  "safe_integer n = (n < 2 ^ 53)"

fun bitlen :: "nat \<Rightarrow> nat" where
  "bitlen n = (if n = 0 then 0 else Suc (bitlen (n div 2)))"

definition pow2 :: "int \<Rightarrow> rat" where
  "pow2 e = (if 0 \<le> e then 2 ^ nat e else 1 / 2 ^ nat (- e))"

text \<open>
  The exponent \<open>e\<close> with \<open>2^e \<le> x < 2^(e+1)\<close>, for a positive \<open>x\<close>: from the number of
  bits of the integer part of \<open>x\<close>, or of \<open>1 / x\<close> when \<open>x\<close> is below \<open>1\<close>.
\<close>

definition floor_log2 :: "rat \<Rightarrow> int" where
  "floor_log2 x =
     (if 1 \<le> x then int (bitlen (nat \<lfloor>x\<rfloor>)) - 1
      else - int (bitlen (nat (\<lceil>1 / x\<rceil> - 1))))"

definition round_half_even :: "rat \<Rightarrow> int" where
  "round_half_even m =
     (let f = \<lfloor>m\<rfloor>; r = m - of_int f
      in if r < 1 / 2 then f else if 1 / 2 < r then f + 1 else if even f then f else f + 1)"

text \<open>
  The double nearest to a rational (IEEE 754 binary64, round to nearest, ties to even): 53
  significant bits, the exponent of the last bit not below \<open>-1074\<close>, and overflow to infinity.
\<close>

definition round_double :: "rat \<Rightarrow> number" where
  "round_double x =
     (if x = 0 then Num 0
      else
        let a = \<bar>x\<bar>;
            e = max (floor_log2 a) (- 1022) - 52;
            y = of_int (round_half_even (a / pow2 e)) * pow2 e
        in if 2 ^ 1024 \<le> y then (if x < 0 then NegInfinity else PosInfinity)
           else Num (if x < 0 then - y else y))"

text \<open>
  \<open>a / b\<close> for two fields, and \<open>x * k\<close> for a number and an integer constant: the exact
  result, rounded; division by zero gives infinity, or NaN for \<open>0 / 0\<close>.
\<close>

definition divide_fields :: "nat \<Rightarrow> nat \<Rightarrow> number" where
  "divide_fields a b =
     (if b = 0 then (if a = 0 then NaN else PosInfinity)
      else round_double (of_nat a / of_nat b))"

fun times_constant :: "number \<Rightarrow> nat \<Rightarrow> number" where
  "times_constant (Num x) k = round_double (x * of_nat k)"
| "times_constant PosInfinity k = (if k = 0 then NaN else PosInfinity)"
| "times_constant NegInfinity k = (if k = 0 then NaN else NegInfinity)"
| "times_constant NaN k = NaN"

subsection \<open>Numbers as text\<close>

definition digit :: "nat \<Rightarrow> char" where
  "digit d = ''0123456789'' ! d"

text \<open>The decimal digits of a natural number: \<open>toString()\<close> of a safe integer.\<close>

fun decimal :: "nat \<Rightarrow> string" where
  "decimal n = (if n < 10 then [digit n] else decimal (n div 10) @ [digit (n mod 10)])"

text \<open>
  \<open>Number::toString\<close> writes a safe integer with its decimal digits. What it writes for the
  other finite values that arise here (the exponent notation from \<open>10^21\<close> upward, the
  shortest digits that read back as the same double for an integer from \<open>2^53\<close> upward)
  is the parameter \<open>big\<close>.

  \<open>Number.prototype.toFixed(2)\<close>, after ECMA-262: the text of a value that is not finite;
  else the sign, and for a magnitude below \<open>10^21\<close> the integer \<open>n\<close> for which \<open>n / 100\<close>
  is nearest to the value (the larger one of two), its digits padded with zeros to three at
  least, and a point before the last two. For a magnitude of \<open>10^21\<close> and more the
  standard hands over to \<open>Number::toString\<close>.
\<close>

definition fixed2 :: "(rat \<Rightarrow> string) \<Rightarrow> rat \<Rightarrow> string" where
  "fixed2 big x =
     (if 10 ^ 21 \<le> x then big x
      else
        let n = nat \<lfloor>x * 100 + 1 / 2\<rfloor>;
            m = decimal n;
            m' = (if length m \<le> 2 then replicate (3 - length m) (CHR ''0'') @ m else m);
            k = length m'
        in take (k - 2) m' @ ''.'' @ drop (k - 2) m')"

fun toFixed2 :: "(rat \<Rightarrow> string) \<Rightarrow> number \<Rightarrow> string" where
  "toFixed2 big NaN = ''NaN''"
| "toFixed2 big PosInfinity = ''Infinity''"
| "toFixed2 big NegInfinity = ''-Infinity''"
| "toFixed2 big (Num x) = (if x < 0 then ''-'' @ fixed2 big (- x) else fixed2 big x)"

subsection \<open>_exportToExcel\<close>

definition headers :: "string list" where
  "headers =
     [''Family'', ''Model'', ''Parameters'', ''Size'', ''Query'', ''Response'',
      ''Total Duration'', ''Load Duration'', ''Prompt Eval Token'', ''Prompt Eval Duration'',
      ''Prompt Eval Token/s'', ''Response Token'', ''Response Duration'', ''Response Token/s'',
      ''Created'', ''Group'']"

text \<open>
  The argument of \<open>escapeTSVValue\<close> is a string or a number; the numbers it is given are
  the two token counts.
\<close>

datatype tsv_value = StringValue string | NumberValue nat

text \<open>\<open>value.replace(/[\t\r\n]/g, " ")\<close>\<close>

definition replace_specials :: "string \<Rightarrow> string" where
  "replace_specials v = map (\<lambda>c. if c = TAB \<or> c = CR \<or> c = LF then CHR '' '' else c) v"

text \<open>A string is sanitised; a number is written by \<open>value.toString()\<close>.\<close>

fun escapeTSVValue :: "(rat \<Rightarrow> string) \<Rightarrow> tsv_value \<Rightarrow> string" where
  "escapeTSVValue big (StringValue v) = replace_specials v"
| "escapeTSVValue big (NumberValue n) = (if safe_integer n then decimal n else big (of_nat n))"

text \<open>\<open>result.message.replace(/[\r\n]+/g, " ")\<close>: every maximal run of CR and LF becomes one space.\<close>

function replace_newline_runs :: "string \<Rightarrow> string" where
  "replace_newline_runs [] = []"
| "replace_newline_runs (c # cs) =
     (if c = CR \<or> c = LF
      then CHR '' '' # replace_newline_runs (dropWhile (\<lambda>d. d = CR \<or> d = LF) cs)
      else c # replace_newline_runs cs)"
  by pat_completeness auto
termination
  by (relation "measure length") (auto simp: length_dropWhile_le less_Suc_eq_le)

text \<open>\<open>Array.prototype.join\<close>\<close>

fun join :: "string \<Rightarrow> string list \<Rightarrow> string" where
  "join sep [] = []"
| "join sep [x] = x"
| "join sep (x # y # ys) = x @ sep @ join sep (y # ys)"

text \<open>
  The cells of one row. \<open>humanFileSize\<close> comes from the module \<open>./utils\<close> and is a
  parameter here.
\<close>

definition export_row :: "(nat \<Rightarrow> string) \<Rightarrow> (rat \<Rightarrow> string) \<Rightarrow> TResponse \<Rightarrow> string list" where
  "export_row humanFileSize big result =
     [escapeTSVValue big (StringValue (model_family result)),
      escapeTSVValue big (StringValue (model_name result)),
      escapeTSVValue big (StringValue (parameters result)),
      escapeTSVValue big (StringValue (humanFileSize (size_bytes result))),
      escapeTSVValue big (StringValue (query result)),
      escapeTSVValue big (StringValue (replace_newline_runs (message result))),
      escapeTSVValue big (StringValue (toFixed2 big (divide_fields (total_duration result) 1000000))),
      escapeTSVValue big (StringValue (toFixed2 big (divide_fields (load_duration result) 1000000))),
      escapeTSVValue big (NumberValue (prompt_eval_count result)),
      escapeTSVValue big (StringValue (toFixed2 big (divide_fields (prompt_eval_duration result) 1000000))),
      escapeTSVValue big (StringValue (toFixed2 big
        (times_constant (divide_fields (prompt_eval_count result) (prompt_eval_duration result))
           1000000000))),
      escapeTSVValue big (NumberValue (eval_count result)),
      escapeTSVValue big (StringValue (toFixed2 big (divide_fields (eval_duration result) 1000000))),
      escapeTSVValue big (StringValue (toFixed2 big
        (times_constant (divide_fields (eval_count result) (eval_duration result)) 1000000000))),
      escapeTSVValue big (StringValue (created_at result)),
      escapeTSVValue big (StringValue (group_id result))]"

definition tsvContent :: "(nat \<Rightarrow> string) \<Rightarrow> (rat \<Rightarrow> string) \<Rightarrow> TResponse list \<Rightarrow> string" where
  "tsvContent humanFileSize big rs =
     join [LF]
       (join [TAB] (map (\<lambda>h. escapeTSVValue big (StringValue h)) headers) #
        map (\<lambda>row. join [TAB] row) (map (export_row humanFileSize big) rs))"

text \<open>The cells of a duration and of a throughput, as \<open>export_row\<close> writes them.\<close>

definition duration_cell :: "(rat \<Rightarrow> string) \<Rightarrow> nat \<Rightarrow> string" where
  "duration_cell big d =
     escapeTSVValue big (StringValue (toFixed2 big (divide_fields d 1000000)))"

definition throughput_cell :: "(rat \<Rightarrow> string) \<Rightarrow> nat \<Rightarrow> nat \<Rightarrow> string" where
  "throughput_cell big c d =
     escapeTSVValue big
       (StringValue (toFixed2 big (times_constant (divide_fields c d) 1000000000)))"

text \<open>The byte order mark \<open>U+FEFF\<close>, in UTF-8.\<close>

definition bom :: string where
  "bom = [CHR 0xEF, CHR 0xBB, CHR 0xBF]"

text \<open>
  What the user gets: the alert, or the download of a file with a name and a content.
  \<open>_responses\<close> is undefined (\<open>None\<close>) when the table could not be read.
\<close>

datatype export_outcome = Alert string | Download string string

fun exportToExcel ::
  "(nat \<Rightarrow> string) \<Rightarrow> (rat \<Rightarrow> string) \<Rightarrow> TResponse list option \<Rightarrow> export_outcome" where
  "exportToExcel humanFileSize big None = Alert ''No data to export.''"
| "exportToExcel humanFileSize big (Some []) = Alert ''No data to export.''"
| "exportToExcel humanFileSize big (Some rs) =
     Download ''responses.tsv'' (bom @ tsvContent humanFileSize big rs)"

subsection \<open>Reading the file back\<close>

text \<open>
  The fields of a line, and the lines of a text, as a reader of tab-separated values takes
  them: the pieces between the separators.
\<close>

fun split_on :: "char \<Rightarrow> string \<Rightarrow> string list" where
  "split_on sep [] = [[]]"
| "split_on sep (c # cs) =
     (if c = sep then [] # split_on sep cs
      else (case split_on sep cs of
              [] \<Rightarrow> [[c]]
            | w # ws \<Rightarrow> (c # w) # ws))"

text \<open>A cell that holds none of the three characters.\<close>

definition clean :: "string \<Rightarrow> bool" where
  "clean v = (TAB \<notin> set v \<and> CR \<notin> set v \<and> LF \<notin> set v)"

text \<open>The number that a cell written in fixed notation denotes.\<close>

fun digits_value :: "string \<Rightarrow> nat" where
  "digits_value cs = foldl (\<lambda>v c. 10 * v + (of_char c - 48)) 0 cs"

definition cell_value :: "string \<Rightarrow> rat" where
  "cell_value cell =
     of_nat (digits_value (takeWhile (\<lambda>c. c \<noteq> CHR ''.'') cell)) +
     of_nat (digits_value (drop 1 (dropWhile (\<lambda>c. c \<noteq> CHR ''.'') cell))) /
       10 ^ length (drop 1 (dropWhile (\<lambda>c. c \<noteq> CHR ''.'') cell))"

subsection \<open>A row used as the concrete input of the examples\<close>

definition ex_row :: TResponse where
  "ex_row =
     \<lparr>created_at = ''2025-03-01T10:00:07.000Z'', eval_count = 128, eval_duration = 3000000000,
      model_family = ''llama'', load_duration = 1005000, message = ''Hi!'' @ [CR, LF] @ ''How are you?'',
      model_name = ''llama3:8b'', parameters = ''8.0B'', prompt_eval_count = 11,
      prompt_eval_duration = 250000000, query = ''Say'' @ [TAB] @ ''hello'',
      size_bytes = 4661224676, started = ''2025-03-01T10:00:07.101Z'',
      total_duration = 3251005000, group_id = ''run-1''\<rparr>"

definition ex_size :: "nat \<Rightarrow> string" where
  "ex_size n = decimal (n div 1000000) @ '' MB''"

definition ex_big :: "rat \<Rightarrow> string" where
  "ex_big x = ''1e+21''"

section \<open>Properties of the run coordinator\<close>

subsection \<open>Frame lemmas\<close>

lemma set_pc_fields [simp]:
  "llm (set_pc r i p s) = llm s" "results (set_pc r i p s) = results s"
  "running (set_pc r i p s) = running s" "selectedLLM (set_pc r i p s) = selectedLLM s"
  "ollamaInstance (set_pc r i p s) = ollamaInstance s" "dexie (set_pc r i p s) = dexie s"
  "responses (set_pc r i p s) = responses s" "dispatched (set_pc r i p s) = dispatched s"
  "length (runs (set_pc r i p s)) = length (runs s)"
  by (simp_all add: set_pc_def)

lemma bump_counter_fields [simp]:
  "llm (bump_counter r s) = llm s" "results (bump_counter r s) = results s"
  "running (bump_counter r s) = running s" "selectedLLM (bump_counter r s) = selectedLLM s"
  "ollamaInstance (bump_counter r s) = ollamaInstance s" "dexie (bump_counter r s) = dexie s"
  "responses (bump_counter r s) = responses s" "dispatched (bump_counter r s) = dispatched s"
  "length (runs (bump_counter r s)) = length (runs s)"
  by (simp_all add: bump_counter_def)

lemma set_pc_run [simp]:
  "uuid (runs (set_pc r i p s) ! j) = uuid (runs s ! j)"
  "queryInput (runs (set_pc r i p s) ! j) = queryInput (runs s ! j)"
  "counter (runs (set_pc r i p s) ! j) = counter (runs s ! j)"
  "tasks (runs (set_pc r i p s) ! j) =
     (if j = r \<and> r < length (runs s)
      then (tasks (runs s ! r))[i := (tasks (runs s ! r) ! i)\<lparr>t_pc := p\<rparr>]
      else tasks (runs s ! j))"
  by (cases "r < length (runs s)"; simp add: set_pc_def nth_list_update list_update_beyond)+

lemma bump_counter_run [simp]:
  "uuid (runs (bump_counter r s) ! j) = uuid (runs s ! j)"
  "queryInput (runs (bump_counter r s) ! j) = queryInput (runs s ! j)"
  "tasks (runs (bump_counter r s) ! j) = tasks (runs s ! j)"
  "counter (runs (bump_counter r s) ! j) =
     (if j = r \<and> r < length (runs s) then counter (runs s ! r) + 1 else counter (runs s ! j))"
  by (cases "r < length (runs s)"; simp add: bump_counter_def nth_list_update list_update_beyond)+

lemma toggle_fields [simp]:
  "results (toggle idx s) = results s"
  "running (toggle idx s) = running s" "selectedLLM (toggle idx s) = selectedLLM s"
  "ollamaInstance (toggle idx s) = ollamaInstance s" "dexie (toggle idx s) = dexie s"
  "responses (toggle idx s) = responses s" "dispatched (toggle idx s) = dispatched s"
  "runs (toggle idx s) = runs s" "length (llm (toggle idx s)) = length (llm s)"
  by (simp_all add: toggle_def)

lemma toggle_llm_name [simp]: "llm_name (llm (toggle idx s) ! k) = llm_name (llm s ! k)"
  by (simp add: toggle_def nth_list_update)

lemma handleClick_fields [simp]:
  "llm (handleClick u q s) = llm s" "results (handleClick u q s) = results s"
  "ollamaInstance (handleClick u q s) = ollamaInstance s" "dexie (handleClick u q s) = dexie s"
  "responses (handleClick u q s) = responses s" "dispatched (handleClick u q s) = dispatched s"
  by (simp_all add: handleClick_def Let_def)

lemma handleClick_runs:
  "runs (handleClick u q s) =
     (if ollamaInstance s
      then runs s @ [\<lparr>uuid = u, counter = 0, queryInput = q,
             tasks = map (\<lambda>i. \<lparr>t_llm = i, t_pc = AwaitChat\<rparr>)
                       (filter (\<lambda>i. llm_selected (llm s ! i)) [0..<length (llm s)])\<rparr>]
      else runs s)"
  by (simp add: handleClick_def Let_def)

text \<open>A settled chat request, when a callback waits for it, and otherwise.\<close>

lemma chat_settled_invalid: "\<not> chat_valid s r i \<Longrightarrow> chat_settled r i out s = s"
  by (auto simp: chat_settled_def chat_valid_def)

lemma chat_settled_fields [simp]:
  "llm (chat_settled r i out s) = llm s"
  "running (chat_settled r i out s) = running s"
  "selectedLLM (chat_settled r i out s) = selectedLLM s"
  "ollamaInstance (chat_settled r i out s) = ollamaInstance s"
  "dexie (chat_settled r i out s) = dexie s"
  "responses (chat_settled r i out s) = responses s"
  "dispatched (chat_settled r i out s) = dispatched s"
  "length (runs (chat_settled r i out s)) = length (runs s)"
  "uuid (runs (chat_settled r i out s) ! j) = uuid (runs s ! j)"
  "queryInput (runs (chat_settled r i out s) ! j) = queryInput (runs s ! j)"
  by (simp_all add: chat_settled_def Let_def split: chat_outcome.splits option.splits)

lemma chat_settled_tasks:
  "chat_valid s r i \<Longrightarrow> tasks (runs (chat_settled r i out s) ! j) =
     (if j = r then (tasks (runs s ! r))[i := (tasks (runs s ! r) ! i)\<lparr>t_pc := chat_pc s r i out\<rparr>]
      else tasks (runs s ! j))"
  by (simp add: chat_settled_def chat_valid_def chat_pc_def Let_def
      split: chat_outcome.splits option.splits)

lemma chat_settled_counter:
  "chat_valid s r i \<Longrightarrow> counter (runs (chat_settled r i out s) ! j) =
     (if j = r \<and> out \<noteq> ChatThrows then counter (runs s ! r) + 1 else counter (runs s ! j))"
  by (simp add: chat_settled_def chat_valid_def Let_def
      split: chat_outcome.splits option.splits)

lemma add_settled_invalid: "\<not> add_valid s r i \<Longrightarrow> add_settled r i ok s = s"
  by (auto simp: add_settled_def add_valid_def split: pc.splits option.splits)

lemma add_settled_fields [simp]:
  "llm (add_settled r i ok s) = llm s"
  "results (add_settled r i ok s) = results s"
  "selectedLLM (add_settled r i ok s) = selectedLLM s"
  "ollamaInstance (add_settled r i ok s) = ollamaInstance s"
  "dexie (add_settled r i ok s) = dexie s"
  "length (runs (add_settled r i ok s)) = length (runs s)"
  "uuid (runs (add_settled r i ok s) ! j) = uuid (runs s ! j)"
  "queryInput (runs (add_settled r i ok s) ! j) = queryInput (runs s ! j)"
  "counter (runs (add_settled r i ok s) ! j) = counter (runs s ! j)"
  by (simp_all add: add_settled_def finish_def split: pc.splits option.splits)

lemma add_settled_tasks:
  "r < length (runs s) \<Longrightarrow> i < length (tasks (runs s ! r)) \<Longrightarrow>
   t_pc (tasks (runs s ! r) ! i) = AwaitAdd p \<Longrightarrow>
   tasks (runs (add_settled r i ok s) ! j) =
     (if j = r then (tasks (runs s ! r))[i := (tasks (runs s ! r) ! i)\<lparr>t_pc := add_pc p ok\<rparr>]
      else tasks (runs s ! j))"
  by (simp add: add_settled_def finish_def add_pc_def split: option.splits)

lemma add_settled_responses:
  "r < length (runs s) \<Longrightarrow> i < length (tasks (runs s ! r)) \<Longrightarrow>
   t_pc (tasks (runs s ! r) ! i) = AwaitAdd p \<Longrightarrow>
   responses (add_settled r i ok s) = responses s @ add_rows p ok"
  by (simp add: add_settled_def finish_def add_rows_def split: option.splits)

subsection \<open>Rows on their way to the table\<close>

lemma pending_ok_nth:
  "pending_ok s \<longleftrightarrow>
     (\<forall>j<length (runs s). \<forall>i<length (tasks (runs s ! j)).
        pending_row_ok s (runs s ! j) (tasks (runs s ! j) ! i))"
  by (simp add: pending_ok_def list_all_length)

lemma pending_row_ok_eq:
  "(\<And>k. llm_name (llm s' ! k) = llm_name (llm s ! k)) \<Longrightarrow> uuid rn' = uuid rn \<Longrightarrow>
     queryInput rn' = queryInput rn \<Longrightarrow> pending_row_ok s' rn' t = pending_row_ok s rn t"
  by (simp add: pending_row_ok_def split: pc.splits option.splits)

lemma pending_row_ok_chat_pc:
  "pending_row_ok s (runs s ! r) ((tasks (runs s ! r) ! i)\<lparr>t_pc := chat_pc s r i out\<rparr>)"
  by (simp add: pending_row_ok_def chat_pc_def make_row_def split: chat_outcome.splits option.splits)

lemma pending_row_ok_add_pc:
  "pending_row_ok s rn (t\<lparr>t_pc := add_pc p ok\<rparr>)"
  by (simp add: pending_row_ok_def add_pc_def split: option.splits)

lemma pending_ok_toggle: "pending_ok s \<Longrightarrow> pending_ok (toggle idx s)"
  by (simp add: pending_ok_nth pending_row_ok_eq [where s = s and s' = "toggle idx s"])

lemma pending_row_ok_AwaitChat: "t_pc t = AwaitChat \<Longrightarrow> pending_row_ok s rn t"
  by (simp add: pending_row_ok_def)

lemma pending_ok_click:
  assumes "pending_ok s"
  shows "pending_ok (handleClick u q s)"
proof (cases "ollamaInstance s")
  case False
  then show ?thesis using assms by (simp add: handleClick_def)
next
  case True
  note oi = this
  have eq: "pending_row_ok (handleClick u q s) rn t = pending_row_ok s rn t" for rn t
    by (rule pending_row_ok_eq) simp_all
  show ?thesis
    unfolding pending_ok_nth
  proof (intro allI impI)
    fix j i
    assume j: "j < length (runs (handleClick u q s))"
      and i: "i < length (tasks (runs (handleClick u q s) ! j))"
    show "pending_row_ok (handleClick u q s) (runs (handleClick u q s) ! j)
            (tasks (runs (handleClick u q s) ! j) ! i)"
    proof (cases "j < length (runs s)")
      case True
      with assms i oi show ?thesis
        by (simp add: eq handleClick_runs nth_append pending_ok_nth)
    next
      case False
      with j i oi show ?thesis
        by (simp add: eq handleClick_runs nth_append pending_row_ok_AwaitChat)
    qed
  qed
qed

lemma pending_ok_chat_settled:
  assumes "pending_ok s"
  shows "pending_ok (chat_settled r i out s)"
proof (cases "chat_valid s r i")
  case False
  then show ?thesis using assms by (simp add: chat_settled_invalid)
next
  case True
  have eq: "pending_row_ok (chat_settled r i out s) (runs (chat_settled r i out s) ! j) t =
            pending_row_ok s (runs s ! j) t" for j t
    by (rule pending_row_ok_eq) simp_all
  show ?thesis
    using assms True
    by (auto simp: pending_ok_nth eq chat_settled_tasks chat_valid_def nth_list_update pending_row_ok_chat_pc)
qed

lemma pending_ok_add_settled:
  assumes "pending_ok s"
  shows "pending_ok (add_settled r i ok s)"
proof (cases "add_valid s r i")
  case False
  then show ?thesis using assms by (simp add: add_settled_invalid)
next
  case True
  then obtain p where v: "r < length (runs s)" "i < length (tasks (runs s ! r))"
    "t_pc (tasks (runs s ! r) ! i) = AwaitAdd p"
    by (auto simp: add_valid_def split: pc.splits)
  have eq: "pending_row_ok (add_settled r i ok s) (runs (add_settled r i ok s) ! j) t =
            pending_row_ok s (runs s ! j) t" for j t
    by (rule pending_row_ok_eq) simp_all
  show ?thesis
    using assms v
    by (auto simp: pending_ok_nth eq add_settled_tasks [OF v] nth_list_update pending_row_ok_add_pc)
qed

lemma pending_ok_step: "pending_ok s \<Longrightarrow> pending_ok (step s e)"
  by (cases e) (simp_all add: pending_ok_toggle pending_ok_click pending_ok_chat_settled
      pending_ok_add_settled)

subsection \<open>The rows of one run\<close>

lemma filter_update_same:
  "\<not> P (xs ! i) \<Longrightarrow> \<not> P x \<Longrightarrow> filter P (xs[i := x]) = filter P xs"
proof (induction xs arbitrary: i)
  case Nil then show ?case by simp
next
  case (Cons a xs) then show ?case by (cases i) auto
qed

lemma mset_filter_update_new:
  "i < length xs \<Longrightarrow> \<not> P (xs ! i) \<Longrightarrow> P x \<Longrightarrow>
     mset (map f (filter P (xs[i := x]))) = add_mset (f x) (mset (map f (filter P xs)))"
proof (induction xs arbitrary: i)
  case Nil then show ?case by simp
next
  case (Cons a xs) then show ?case by (cases i) auto
qed

lemma finished_names_toggle [simp]: "finished_names (toggle idx s) r = finished_names s r"
  by (simp add: finished_names_def)

lemma finished_names_click [simp]:
  "r < length (runs s) \<Longrightarrow> finished_names (handleClick u q s) r = finished_names s r"
  by (simp add: finished_names_def handleClick_runs nth_append)

lemma chat_pc_not_Finished [simp]: "chat_pc s r i out \<noteq> Finished"
  by (simp add: chat_pc_def split: chat_outcome.splits option.splits)

lemma chat_pc_not_None: "dexie s \<Longrightarrow> chat_pc s r i out \<noteq> AwaitAdd None"
  by (simp add: chat_pc_def split: chat_outcome.splits option.splits)

lemma finished_names_chat_settled [simp]:
  "finished_names (chat_settled r' i out s) r = finished_names s r"
proof (cases "chat_valid s r' i")
  case False
  then show ?thesis by (simp add: chat_settled_invalid)
next
  case True
  then have "t_pc (tasks (runs s ! r') ! i) \<noteq> Finished"
    by (simp add: chat_valid_def)
  then show ?thesis
    by (simp add: finished_names_def chat_settled_tasks [OF True] filter_update_same)
qed

lemma run_inv_toggle: "run_inv r u q s \<Longrightarrow> run_inv r u q (toggle idx s)"
  by (simp add: run_inv_def rows_of_def)

lemma run_inv_click:
  assumes "run_inv r u q s" "u' \<noteq> u"
  shows "run_inv r u q (handleClick u' q' s)"
proof (cases "ollamaInstance s")
  case False
  then show ?thesis using assms by (simp add: handleClick_def)
next
  case True
  then have rs: "runs (handleClick u' q' s) ! j =
      (if j < length (runs s) then runs s ! j
       else [\<lparr>uuid = u', counter = 0, queryInput = q',
             tasks = map (\<lambda>i. \<lparr>t_llm = i, t_pc = AwaitChat\<rparr>)
                       (filter (\<lambda>i. llm_selected (llm s ! i)) [0..<length (llm s)])\<rparr>] ! (j - length (runs s)))"
    and len: "length (runs (handleClick u' q' s)) = Suc (length (runs s))" for j
    by (simp_all add: handleClick_runs nth_append)
  show ?thesis
    using assms by (auto simp: run_inv_def rows_of_def rs len less_Suc_eq)
qed

lemma run_inv_chat_settled:
  assumes "run_inv r u q s"
  shows "run_inv r u q (chat_settled r' i out s)"
proof (cases "chat_valid s r' i")
  case False
  then show ?thesis using assms by (simp add: chat_settled_invalid)
next
  case True
  then have old: "i < length (tasks (runs s ! r'))"
    by (simp_all add: chat_valid_def)
  from assms have "dexie s" by (simp add: run_inv_def)
  then show ?thesis
    using assms old
    by (auto simp: run_inv_def rows_of_def chat_settled_tasks [OF True]
        nth_list_update chat_pc_not_None)
qed

lemma finished_names_add_other:
  assumes "r < length (runs s)" "i < length (tasks (runs s ! r'))" "r' < length (runs s)"
    "t_pc (tasks (runs s ! r') ! i) = AwaitAdd p" "r' \<noteq> r"
  shows "finished_names (add_settled r' i ok s) r = finished_names s r"
  using assms by (simp add: finished_names_def add_settled_tasks)

lemma finished_names_add_rejected:
  assumes "i < length (tasks (runs s ! r))" "r < length (runs s)"
    "t_pc (tasks (runs s ! r) ! i) = AwaitAdd (Some row)"
  shows "finished_names (add_settled r i False s) r = finished_names s r"
  using assms by (simp add: finished_names_def add_settled_tasks add_pc_def filter_update_same)

lemma finished_names_add_written:
  assumes "i < length (tasks (runs s ! r))" "r < length (runs s)"
    "t_pc (tasks (runs s ! r) ! i) = AwaitAdd (Some row)"
  shows "mset (finished_names (add_settled r i True s) r) =
         add_mset (llm_name (llm s ! t_llm (tasks (runs s ! r) ! i))) (mset (finished_names s r))"
  using assms
  by (simp add: finished_names_def add_settled_tasks add_pc_def mset_filter_update_new
      del: mset_map mset_filter)

lemma run_invI:
  assumes "r < length (runs s)" "dexie s" "uuid (runs s ! r) = u" "queryInput (runs s ! r) = q"
    "\<And>j. j < length (runs s) \<Longrightarrow> j \<noteq> r \<Longrightarrow> uuid (runs s ! j) \<noteq> u"
    "\<And>i. i < length (tasks (runs s ! r)) \<Longrightarrow> t_pc (tasks (runs s ! r) ! i) \<noteq> AwaitAdd None"
    "mset (map model_name (rows_of u s)) = mset (finished_names s r)"
    "\<And>row. row \<in> set (rows_of u s) \<Longrightarrow> query row = q"
  shows "run_inv r u q s"
  using assms unfolding run_inv_def by blast

lemma run_invD:
  assumes "run_inv r u q s"
  shows "r < length (runs s)" "dexie s" "uuid (runs s ! r) = u" "queryInput (runs s ! r) = q"
    "\<And>j. j < length (runs s) \<Longrightarrow> j \<noteq> r \<Longrightarrow> uuid (runs s ! j) \<noteq> u"
    "\<And>i. i < length (tasks (runs s ! r)) \<Longrightarrow> t_pc (tasks (runs s ! r) ! i) \<noteq> AwaitAdd None"
    "mset (map model_name (rows_of u s)) = mset (finished_names s r)"
    "\<And>row. row \<in> set (rows_of u s) \<Longrightarrow> query row = q"
  using assms unfolding run_inv_def by blast+

lemma run_inv_add_settled:
  assumes inv: "run_inv r u q s" and pend: "pending_ok s"
  shows "run_inv r u q (add_settled r' i ok s)"
proof (cases "add_valid s r' i")
  case False
  then show ?thesis using inv by (simp add: add_settled_invalid)
next
  case True
  then obtain p where v: "r' < length (runs s)" "i < length (tasks (runs s ! r'))"
    "t_pc (tasks (runs s ! r') ! i) = AwaitAdd p"
    by (auto simp: add_valid_def split: pc.splits)
  note I = run_invD [OF inv]
  from pend v have pr: "pending_row_ok s (runs s ! r') (tasks (runs s ! r') ! i)"
    by (simp add: pending_ok_nth)
  let ?s' = "add_settled r' i ok s"
  define new where "new = (if r' = r then add_rows p ok else [])"
  have rows: "rows_of u ?s' = rows_of u s @ new"
    and fin: "mset (finished_names ?s' r) = mset (finished_names s r) + mset (map model_name new)"
    and new_q: "\<And>row. row \<in> set new \<Longrightarrow> query row = q"
  proof -
    have "rows_of u ?s' = rows_of u s @ filter (\<lambda>row. group_id row = u) (add_rows p ok)"
      by (simp add: rows_of_def add_settled_responses [OF v])
    also have "filter (\<lambda>row. group_id row = u) (add_rows p ok) = new"
    proof (cases "r' = r")
      case False
      with I(5) v have "uuid (runs s ! r') \<noteq> u" by simp
      with pr v False show ?thesis
        by (auto simp: new_def add_rows_def pending_row_ok_def split: option.splits)
    next
      case True
      with pr v I(3) show ?thesis
        by (auto simp: new_def add_rows_def pending_row_ok_def split: option.splits)
    qed
    finally show "rows_of u ?s' = rows_of u s @ new" .
    show "mset (finished_names ?s' r) = mset (finished_names s r) + mset (map model_name new)"
    proof (cases "r' = r")
      case False
      with v I(1) show ?thesis
        by (simp add: new_def finished_names_add_other)
    next
      case True
      with v I(6) [of i] obtain row where p: "p = Some row"
        by (cases p) auto
      from pr v p True have "model_name row = llm_name (llm s ! t_llm (tasks (runs s ! r) ! i))"
        by (simp add: pending_row_ok_def)
      with v p True show ?thesis
        by (cases ok)
          (simp_all add: new_def add_rows_def finished_names_add_written finished_names_add_rejected)
    qed
    show "query row = q" if "row \<in> set new" for row
      using that pr v I(4)
      by (auto simp: new_def add_rows_def pending_row_ok_def split: if_splits option.splits)
  qed
  show ?thesis
  proof (rule run_invI)
    show "r < length (runs ?s')" "dexie ?s'" "uuid (runs ?s' ! r) = u" "queryInput (runs ?s' ! r) = q"
      using I by simp_all
    show "uuid (runs ?s' ! j) \<noteq> u" if "j < length (runs ?s')" "j \<noteq> r" for j
      using that I by simp
    show "t_pc (tasks (runs ?s' ! r) ! k) \<noteq> AwaitAdd None" if "k < length (tasks (runs ?s' ! r))" for k
      using that I(6) [of k] I(1) v
      by (auto simp: add_settled_tasks [OF v] nth_list_update add_pc_def split: if_splits option.splits)
    show "mset (map model_name (rows_of u ?s')) = mset (finished_names ?s' r)"
      using rows fin I(7) by simp
    show "query row = q" if "row \<in> set (rows_of u ?s')" for row
      using that rows new_q I(8) by auto
  qed
qed

lemma run_inv_step:
  "run_inv r u q s \<Longrightarrow> pending_ok s \<Longrightarrow> other_uuid u e \<Longrightarrow> run_inv r u q (step s e)"
  by (cases e) (simp_all add: run_inv_toggle run_inv_click run_inv_chat_settled run_inv_add_settled)

lemma run_inv_exec:
  "run_inv r u q s \<Longrightarrow> pending_ok s \<Longrightarrow> list_all (other_uuid u) es \<Longrightarrow>
     run_inv r u q (exec s es) \<and> pending_ok (exec s es)"
  unfolding exec_def
  by (induction es arbitrary: s) (simp_all add: run_inv_step pending_ok_step)

subsection \<open>The descriptors of a run's callbacks\<close>

lemma map_update_same: "f x = f (xs ! i) \<Longrightarrow> map f (xs[i := x]) = map f xs"
  by (metis list_update_id map_update)

lemma task_names_step:
  assumes "r < length (runs s)"
  shows "task_names (step s e) r = task_names s r"
proof (cases e)
  case (Toggle idx)
  then show ?thesis by (simp add: task_names_def)
next
  case (Click u q)
  with assms show ?thesis by (simp add: task_names_def handleClick_runs nth_append)
next
  case (ChatSettled r' i out)
  show ?thesis
  proof (cases "chat_valid s r' i")
    case False
    with ChatSettled show ?thesis by (simp add: chat_settled_invalid)
  next
    case True
    with ChatSettled show ?thesis
      by (simp add: task_names_def chat_settled_tasks map_update_same)
  qed
next
  case (AddSettled r' i ok)
  show ?thesis
  proof (cases "add_valid s r' i")
    case False
    with AddSettled show ?thesis by (simp add: add_settled_invalid)
  next
    case True
    then obtain p where v: "r' < length (runs s)" "i < length (tasks (runs s ! r'))"
      "t_pc (tasks (runs s ! r') ! i) = AwaitAdd p"
      by (auto simp: add_valid_def split: pc.splits)
    with AddSettled show ?thesis
      by (simp add: task_names_def add_settled_tasks [OF v] map_update_same)
  qed
qed

lemma runs_length_step: "length (runs s) \<le> length (runs (step s e))"
  by (cases e) (simp_all add: handleClick_runs)

lemma task_names_exec:
  "r < length (runs s) \<Longrightarrow> task_names (exec s es) r = task_names s r"
  unfolding exec_def
proof (induction es arbitrary: s)
  case Nil
  show ?case by simp
next
  case (Cons e es)
  have "r < length (runs (step s e))"
    using Cons.prems runs_length_step [of s e] by simp
  with Cons show ?case by (simp add: task_names_step)
qed

lemma selected_by_index:
  "map ((!) xs) (filter (\<lambda>i. P (xs ! i)) [0..<length xs]) = filter P xs"
proof -
  have "filter P (map ((!) xs) [0..<length xs]) = filter P xs"
    by (simp only: map_nth)
  then show ?thesis by (simp add: filter_map comp_def)
qed

lemma task_names_click:
  "ollamaInstance s \<Longrightarrow>
     task_names (handleClick u q s) (length (runs s)) = map llm_name (filter llm_selected (llm s))"
proof -
  assume "ollamaInstance s"
  then have "task_names (handleClick u q s) (length (runs s)) =
      map llm_name (map ((!) (llm s)) (filter (\<lambda>i. llm_selected (llm s ! i)) [0..<length (llm s)]))"
    by (simp add: task_names_def handleClick_runs comp_def)
  then show ?thesis by (simp only: selected_by_index)
qed

lemma run_inv_after_click:
  assumes "ollamaInstance s" "dexie s" "fresh_uuid u s"
  shows "run_inv (length (runs s)) u q (handleClick u q s)"
proof (rule run_invI)
  let ?s' = "handleClick u q s"
  from assms(1) have rs: "runs ?s' = runs s @
      [\<lparr>uuid = u, counter = 0, queryInput = q,
        tasks = map (\<lambda>i. \<lparr>t_llm = i, t_pc = AwaitChat\<rparr>)
                  (filter (\<lambda>i. llm_selected (llm s ! i)) [0..<length (llm s)])\<rparr>]"
    by (simp add: handleClick_runs)
  show "length (runs s) < length (runs ?s')" "dexie ?s'"
    "uuid (runs ?s' ! length (runs s)) = u" "queryInput (runs ?s' ! length (runs s)) = q"
    using assms by (simp_all add: rs)
  show "uuid (runs ?s' ! j) \<noteq> u" if "j < length (runs ?s')" "j \<noteq> length (runs s)" for j
    using that assms(3) by (auto simp: rs nth_append fresh_uuid_def)
  show "t_pc (tasks (runs ?s' ! length (runs s)) ! i) \<noteq> AwaitAdd None"
    if "i < length (tasks (runs ?s' ! length (runs s)))" for i
    using that by (simp add: rs)
  have "rows_of u ?s' = []"
    using assms(3) by (auto simp: rows_of_def fresh_uuid_def filter_empty_conv)
  moreover have "finished_names ?s' (length (runs s)) = []"
    by (simp add: finished_names_def rs filter_empty_conv)
  ultimately show "mset (map model_name (rows_of u ?s')) = mset (finished_names ?s' (length (runs s)))"
    and "\<And>row. row \<in> set (rows_of u ?s') \<Longrightarrow> query row = q"
    by simp_all
qed

lemma finished_names_all:
  "list_all (\<lambda>t. t_pc t = Finished) (tasks (runs s ! r)) \<Longrightarrow> finished_names s r = task_names s r"
  by (simp add: finished_names_def task_names_def list_all_iff)

subsection \<open>One row per selected model\<close>

text \<open>
  Claim C1, as amended. A run is submitted with the fresh identifier \<open>u\<close> and the prompt
  \<open>q\<close> over the descriptors that are ticked, whose names are distinct, and any events are
  delivered after it, in any order (other runs may be going on). Once every callback of the
  run has run to its end, that is, every chat request of the run has succeeded and every row
  of the run has been written, the table holds exactly as many rows with the identifier
  \<open>u\<close> as models were selected; their model names are distinct and are the names of the
  selected models, and each carries the prompt \<open>q\<close>.
\<close>

theorem submit_persists_one_row_per_model:
  assumes "ollamaInstance s0" "dexie s0" "pending_ok s0" "fresh_uuid u s0"
    and "list_all (other_uuid u) es"
    and "distinct (map llm_name (filter llm_selected (llm s0)))"
    and "list_all (\<lambda>t. t_pc t = Finished)
           (tasks (runs (exec (step s0 (Click u q)) es) ! length (runs s0)))"
  shows "length (rows_of u (exec (step s0 (Click u q)) es)) = length (filter llm_selected (llm s0)) \<and>
         distinct (map model_name (rows_of u (exec (step s0 (Click u q)) es))) \<and>
         set (map model_name (rows_of u (exec (step s0 (Click u q)) es))) =
           set (map llm_name (filter llm_selected (llm s0))) \<and>
         (\<forall>row\<in>set (rows_of u (exec (step s0 (Click u q)) es)). group_id row = u \<and> query row = q)"
proof -
  let ?s1 = "handleClick u q s0"
  let ?s = "exec ?s1 es"
  let ?r = "length (runs s0)"
  let ?S = "map llm_name (filter llm_selected (llm s0))"
  have inv1: "run_inv ?r u q ?s1"
    using assms(1,2,4) by (rule run_inv_after_click)
  have p1: "pending_ok ?s1"
    using assms(3) by (rule pending_ok_click)
  from run_inv_exec [OF inv1 p1 assms(5)] have inv: "run_inv ?r u q ?s" ..
  have r1: "?r < length (runs ?s1)"
    using assms(1) by (simp add: handleClick_runs)
  have "task_names ?s ?r = task_names ?s1 ?r"
    using r1 by (rule task_names_exec)
  also have "\<dots> = ?S"
    using assms(1) by (rule task_names_click)
  finally have names: "finished_names ?s ?r = ?S"
    using assms(7) by (simp add: finished_names_all)
  have m: "mset (map model_name (rows_of u ?s)) = mset ?S"
    using run_invD(7) [OF inv] names by simp
  have len: "length (rows_of u ?s) = length (filter llm_selected (llm s0))"
    using mset_eq_length [OF m] by simp
  have dist: "distinct (map model_name (rows_of u ?s))"
    using m assms(6) by (metis mset_eq_imp_distinct_iff)
  have st: "set (map model_name (rows_of u ?s)) = set ?S"
    using m by (rule mset_eq_setD)
  have q: "\<forall>row\<in>set (rows_of u ?s). group_id row = u \<and> query row = q"
    using run_invD(8) [OF inv] by (auto simp: rows_of_def)
  show ?thesis
    using len dist st q by simp
qed

theorem submit_persists_one_row_per_model_witness:
  "ollamaInstance ex_ready \<and> dexie ex_ready \<and> pending_ok ex_ready \<and>
   fresh_uuid ''run-1'' ex_ready \<and> list_all (other_uuid ''run-1'') ex_schedule \<and>
   distinct (map llm_name (filter llm_selected (llm ex_ready))) \<and>
   list_all (\<lambda>t. t_pc t = Finished)
     (tasks (runs (exec (step ex_ready (Click ''run-1'' ''Hello'')) ex_schedule) !
        length (runs ex_ready))) \<and>
   length (rows_of ''run-1'' (exec (step ex_ready (Click ''run-1'' ''Hello'')) ex_schedule)) = 2 \<and>
   map model_name (rows_of ''run-1'' (exec (step ex_ready (Click ''run-1'' ''Hello'')) ex_schedule)) =
     [''mistral:7b'', ''llama3:8b'']"
proof -
  have h1: "ollamaInstance ex_ready" by code_simp
  have h2: "dexie ex_ready" by code_simp
  have h3: "pending_ok ex_ready" by code_simp
  have h4: "fresh_uuid ''run-1'' ex_ready" by code_simp
  have h5: "list_all (other_uuid ''run-1'') ex_schedule" by code_simp
  have h6: "distinct (map llm_name (filter llm_selected (llm ex_ready)))" by code_simp
  have h7: "list_all (\<lambda>t. t_pc t = Finished)
       (tasks (runs (exec (step ex_ready (Click ''run-1'' ''Hello'')) ex_schedule) !
          length (runs ex_ready)))"
    by code_simp
  note h = h1 h2 h3 h4 h5 h6 h7
  have m: "map model_name
      (rows_of ''run-1'' (exec (step ex_ready (Click ''run-1'' ''Hello'')) ex_schedule)) =
     [''mistral:7b'', ''llama3:8b'']"
    by code_simp
  have n: "length (filter llm_selected (llm ex_ready)) = 2"
    by code_simp
  from submit_persists_one_row_per_model [OF h]
  have "length (rows_of ''run-1'' (exec (step ex_ready (Click ''run-1'' ''Hello'')) ex_schedule)) =
      length (filter llm_selected (llm ex_ready))"
    by blast
  with n h m show ?thesis by simp
qed

text \<open>
  A callback whose chat request succeeds and whose row is written runs to its end.
\<close>

lemma callback_finishes:
  assumes "chat_valid s r i" "dexie s"
  shows "t_pc (tasks (runs (add_settled r i True
           (chat_settled r i (ChatResolves (Some response) now1 now2) s)) ! r) ! i) = Finished"
proof -
  let ?s1 = "chat_settled r i (ChatResolves (Some response) now1 now2) s"
  from assms(1) have v: "r < length (runs s)" "i < length (tasks (runs s ! r))"
    by (simp_all add: chat_valid_def)
  have pc: "t_pc (tasks (runs ?s1 ! r) ! i) =
      AwaitAdd (Some (make_row response (llm s ! t_llm (tasks (runs s ! r) ! i))
        (queryInput (runs s ! r)) now2 (uuid (runs s ! r))))"
    using assms v by (simp add: chat_settled_tasks chat_pc_def)
  have v1: "r < length (runs ?s1)" "i < length (tasks (runs ?s1 ! r))"
    using assms(1) v by (simp_all add: chat_settled_tasks)
  show ?thesis
    using v1 by (simp add: add_settled_tasks [OF v1 pc] add_pc_def)
qed

text \<open>
  Claim C1 as stated fails when a write to the table fails: both chat requests of the run
  succeed and every callback has settled, but the table rejects one of the two rows, and
  one row is persisted for two selected models.
\<close>

theorem rows_missing_when_a_write_fails:
  "list_all (\<lambda>t. answered (t_pc t) \<and> \<not> suspended (t_pc t))
     (tasks (runs (exec (step ex_ready (Click ''run-1'' ''Hello'')) ex_write_fails_schedule) ! 0)) \<and>
   length (filter llm_selected (llm ex_ready)) = 2 \<and>
   length (rows_of ''run-1'' (exec (step ex_ready (Click ''run-1'' ''Hello'')) ex_write_fails_schedule)) = 1 \<and>
   length (responses (exec (step ex_ready (Click ''run-1'' ''Hello'')) ex_write_fails_schedule)) = 1"
  by code_simp

subsection \<open>The in-memory list of results\<close>

lemma results_step: "results (step s e) = results s @ pushed s e"
proof (cases e)
  case (ChatSettled r i out)
  show ?thesis
  proof (cases out)
    case ChatThrows
    with ChatSettled show ?thesis by (simp add: chat_settled_def)
  next
    case (ChatResolves response now1 now2)
    show ?thesis
    proof (cases response)
      case None
      with ChatSettled ChatResolves show ?thesis by (simp add: chat_settled_def)
    next
      case (Some resp)
      with ChatSettled ChatResolves show ?thesis
        by (simp add: chat_settled_def chat_valid_def Let_def)
    qed
  qed
qed simp_all

lemma results_exec: "results (exec s es) = results s @ pushed_all s es"
  unfolding exec_def
  by (induction es arbitrary: s) (simp_all add: results_step)

lemma pushed_all_append:
  "pushed_all s (es1 @ es2) = pushed_all s es1 @ pushed_all (exec s es1) es2"
  unfolding exec_def
  by (induction es1 arbitrary: s) simp_all

text \<open>
  Claim C9. \<open>_handleClick\<close> does not touch \<open>_results\<close>, and an event changes the list only
  by appending: a callback that is resumed with a response appends its entry, and nothing
  else is appended or removed. So after any events the list is what it was, followed by the
  entries pushed since; what the list holds after the events \<open>es\<close> of earlier runs is still
  there, in front, after the events \<open>es'\<close> of later runs.
\<close>

theorem results_only_grow:
  "results (step s (Click u q)) = results s \<and>
   results (step s e) = results s @ pushed s e \<and>
   results (exec s es) = results s @ pushed_all s es \<and>
   results (exec s (es @ es')) = results (exec s es) @ pushed_all (exec s es) es' \<and>
   prefix (results s) (results (exec s es))"
  by (simp add: results_step results_exec pushed_all_append)

text \<open>
  Two runs in one session: the two entries of the first run (prompt \<open>Hello\<close>) are still in
  the list, before the two entries of the second run (prompt \<open>Again\<close>).
\<close>

theorem results_only_grow_witness:
  "map res_query (results (exec ex_submitted ex_schedule)) = [''Hello'', ''Hello''] \<and>
   map res_query (pushed_all (exec ex_submitted ex_schedule)
      (drop (length ex_schedule) ex_two_runs)) = [''Again'', ''Again''] \<and>
   map res_query (results (exec ex_submitted ex_two_runs)) =
     [''Hello'', ''Hello'', ''Again'', ''Again''] \<and>
   map (llm_name \<circ> res_llm) (results (exec ex_submitted ex_two_runs)) =
     [''mistral:7b'', ''llama3:8b'', ''llama3:8b'', ''mistral:7b'']"
proof -
  have 1: "map res_query (results (exec ex_submitted ex_schedule)) = [''Hello'', ''Hello'']"
    by code_simp
  have 2: "map res_query (pushed_all (exec ex_submitted ex_schedule)
      (drop (length ex_schedule) ex_two_runs)) = [''Again'', ''Again'']"
    by code_simp
  have 3: "map (llm_name \<circ> res_llm) (results (exec ex_submitted ex_two_runs)) =
     [''mistral:7b'', ''llama3:8b'', ''llama3:8b'', ''mistral:7b'']"
    by code_simp
  have e: "ex_two_runs = ex_schedule @ drop (length ex_schedule) ex_two_runs"
    by (simp add: ex_two_runs_def)
  from results_only_grow [of ex_submitted _ _ _ ex_schedule "drop (length ex_schedule) ex_two_runs"]
  have "results (exec ex_submitted (ex_schedule @ drop (length ex_schedule) ex_two_runs)) =
      results (exec ex_submitted ex_schedule) @
      pushed_all (exec ex_submitted ex_schedule) (drop (length ex_schedule) ex_two_runs)"
    by blast
  with e have "results (exec ex_submitted ex_two_runs) =
      results (exec ex_submitted ex_schedule) @
      pushed_all (exec ex_submitted ex_schedule) (drop (length ex_schedule) ex_two_runs)"
    by simp
  then have "map res_query (results (exec ex_submitted ex_two_runs)) =
      [''Hello'', ''Hello'', ''Again'', ''Again'']"
    using 1 2 by simp
  with 1 2 3 show ?thesis by simp
qed

subsection \<open>Initialisation when the backend fails\<close>

text \<open>
  Claim C8. If the request for the model listing fails, \<open>firstUpdated\<close> of the element as
  constructed ends in the rejected promise \<open>Model not available\<close>, has sent exactly one
  request (whatever the backend would have answered to a second one), and leaves the list of
  descriptors empty.
\<close>

theorem firstUpdated_backend_unavailable:
  assumes "list n = None"
  shows "firstUpdated list n (initial table) =
           (Suc n, (initial table)\<lparr>dexie := True, ollamaInstance := True\<rparr>, Inl ModelNotAvailable) \<and>
         llm (fst (snd (firstUpdated list n (initial table)))) = []"
  using assms by (simp add: firstUpdated_def initial_def)

theorem firstUpdated_backend_unavailable_witness:
  "(\<lambda>k. if k = 0 then None else Some ex_models) (0::nat) = None \<and>
   firstUpdated (\<lambda>k. if k = 0 then None else Some ex_models) 0 (initial []) =
     (Suc 0, (initial [])\<lparr>dexie := True, ollamaInstance := True\<rparr>, Inl ModelNotAvailable) \<and>
   llm (fst (snd (firstUpdated (\<lambda>k. if k = 0 then None else Some ex_models) 0 (initial [])))) = []"
  using firstUpdated_backend_unavailable [of "\<lambda>k. if k = 0 then None else Some ex_models" 0 "[]"]
  by (simp add: initial_def)

subsection \<open>Callbacks that are not suspended stay as they are\<close>

lemma tasks_length_step:
  assumes "r < length (runs s)"
  shows "length (tasks (runs (step s e) ! r)) = length (tasks (runs s ! r))"
  using task_names_step [OF assms, of e] 
  by (metis length_map task_names_def)

lemma pc_terminal_step:
  assumes "r < length (runs s)" "i < length (tasks (runs s ! r))"
    "\<not> suspended (t_pc (tasks (runs s ! r) ! i))"
  shows "t_pc (tasks (runs (step s e) ! r) ! i) = t_pc (tasks (runs s ! r) ! i)"
proof (cases e)
  case (Toggle idx)
  then show ?thesis by simp
next
  case (Click u q)
  with assms show ?thesis by (simp add: handleClick_runs nth_append)
next
  case (ChatSettled r' j out)
  show ?thesis
  proof (cases "chat_valid s r' j")
    case False
    with ChatSettled show ?thesis by (simp add: chat_settled_invalid)
  next
    case True
    with assms have "\<not> (r' = r \<and> j = i)" by (auto simp: chat_valid_def)
    with True assms ChatSettled show ?thesis
      by (auto simp: chat_settled_tasks nth_list_update)
  qed
next
  case (AddSettled r' j ok)
  show ?thesis
  proof (cases "add_valid s r' j")
    case False
    with AddSettled show ?thesis by (simp add: add_settled_invalid)
  next
    case True
    then obtain p where v: "r' < length (runs s)" "j < length (tasks (runs s ! r'))"
      "t_pc (tasks (runs s ! r') ! j) = AwaitAdd p"
      by (auto simp: add_valid_def split: pc.splits)
    with assms have "\<not> (r' = r \<and> j = i)" by auto
    with assms AddSettled show ?thesis
      by (auto simp: add_settled_tasks [OF v] nth_list_update)
  qed
qed

lemma pc_terminal_exec:
  "r < length (runs s) \<Longrightarrow> i < length (tasks (runs s ! r)) \<Longrightarrow>
   \<not> suspended (t_pc (tasks (runs s ! r) ! i)) \<Longrightarrow>
   t_pc (tasks (runs (exec s es) ! r) ! i) = t_pc (tasks (runs s ! r) ! i)"
  unfolding exec_def
proof (induction es arbitrary: s)
  case Nil
  show ?case by simp
next
  case (Cons e es)
  have r: "r < length (runs (step s e))"
    using Cons.prems(1) runs_length_step [of s e] by simp
  have i: "i < length (tasks (runs (step s e) ! r))"
    using Cons.prems by (simp add: tasks_length_step)
  have pc: "t_pc (tasks (runs (step s e) ! r) ! i) = t_pc (tasks (runs s ! r) ! i)"
    using Cons.prems by (rule pc_terminal_step)
  with Cons.prems have "\<not> suspended (t_pc (tasks (runs (step s e) ! r) ! i))" by simp
  from Cons.IH [OF r i this] pc show ?case by simp
qed

subsection \<open>The signal and the busy flag\<close>

lemma step_dispatched:
  "dispatched (step s e) = dispatched s + (if completes s e then 1 else 0)"
proof (cases e)
  case (AddSettled r i ok)
  then show ?thesis
    by (auto simp: add_settled_def finish_def split: pc.splits option.splits)
qed simp_all

lemma step_running:
  "running (step s e) =
     (if completes s e \<and> length (selectedLLM s) = counter (runs s ! event_run e) then False
      else if is_click e \<and> ollamaInstance s then True
      else running s)"
proof (cases e)
  case (AddSettled r i ok)
  then show ?thesis
    by (auto simp: add_settled_def finish_def split: pc.splits option.splits)
next
  case (Click u q)
  then show ?thesis by (simp add: handleClick_def Let_def)
qed simp_all

text \<open>
  Claim C2, as amended. The event \<open>generator:done\<close> is dispatched once at every per-request
  completion (each time a callback is resumed from its \<open>add\<close> and runs to its end), whether
  or not the counter has reached the size of the selection, and at no other event. The
  element leaves the busy state at such a completion, and only if the counter of the
  callback's run equals the length of \<open>_selectedLLM\<close>; a click on a ready element makes it
  busy; no other event changes the flag.
\<close>

theorem signal_at_every_completion:
  "dispatched (step s e) = dispatched s + (if completes s e then 1 else 0) \<and>
   running (step s e) =
     (if completes s e \<and> length (selectedLLM s) = counter (runs s ! event_run e) then False
      else if is_click e \<and> ollamaInstance s then True
      else running s)"
  using step_dispatched step_running by blast

theorem signal_at_every_completion_witness:
  "dispatched (step ex_first_answered (AddSettled 0 1 True)) = dispatched ex_first_answered + 1 \<and>
   completes ex_first_answered (AddSettled 0 1 True) \<and>
   running (step ex_first_answered (AddSettled 0 1 True))"
proof -
  have c: "completes ex_first_answered (AddSettled 0 1 True)" by code_simp
  have r: "running ex_first_answered" by code_simp
  have n: "length (selectedLLM ex_first_answered) \<noteq> counter (runs ex_first_answered ! 0)" by code_simp
  from signal_at_every_completion [of ex_first_answered "AddSettled 0 1 True"] c r n
  show ?thesis by simp
qed

text \<open>
  Claim C2 as stated fails: of two selected models one has answered and its row is written.
  The signal is dispatched at this completion, when the counter is 1, the selection has 2
  models, and the element stays busy.
\<close>

theorem signal_before_counter_reaches_selection:
  "dispatched (step ex_first_answered (AddSettled 0 1 True)) = dispatched ex_first_answered + 1 \<and>
   counter (runs (step ex_first_answered (AddSettled 0 1 True)) ! 0) = 1 \<and>
   length (selectedLLM (step ex_first_answered (AddSettled 0 1 True))) = 2 \<and>
   running (step ex_first_answered (AddSettled 0 1 True))"
  by code_simp

subsection \<open>The completion counter\<close>

lemma length_filter_update:
  "i < length xs \<Longrightarrow> \<not> P (xs ! i) \<Longrightarrow>
     length (filter P (xs[i := x])) = length (filter P xs) + (if P x then 1 else 0)"
proof (induction xs arbitrary: i)
  case Nil
  then show ?case by simp
next
  case (Cons a xs)
  then show ?case by (cases i) auto
qed

lemma length_filter_update_same:
  "i < length xs \<Longrightarrow> P (xs ! i) \<Longrightarrow> P x \<Longrightarrow>
     length (filter P (xs[i := x])) = length (filter P xs)"
proof (induction xs arbitrary: i)
  case Nil
  then show ?case by simp
next
  case (Cons a xs)
  then show ?case by (cases i) auto
qed

lemma filter_all_length:
  "length (filter P xs) = length xs \<Longrightarrow> i < length xs \<Longrightarrow> P (xs ! i)"
  by (metis filter_id_conv length_filter_le filter_True nth_mem
      length_filter_less order_less_irrefl)

lemma resolved_chat_pc: "resolved (chat_pc s r i out) = (out \<noteq> ChatThrows)"
  by (simp add: chat_pc_def split: chat_outcome.splits option.splits)

lemma resolved_add_pc [simp]: "resolved (add_pc p ok)"
  by (simp add: add_pc_def split: option.splits)

lemma counter_ok_step:
  assumes "r < length (runs s)" "counter_ok s r"
  shows "counter_ok (step s e) r"
proof (cases e)
  case (Toggle idx)
  with assms show ?thesis by (simp add: counter_ok_def)
next
  case (Click u q)
  with assms show ?thesis by (simp add: counter_ok_def handleClick_runs nth_append)
next
  case (ChatSettled r' i out)
  show ?thesis
  proof (cases "chat_valid s r' i")
    case False
    with ChatSettled assms show ?thesis by (simp add: chat_settled_invalid)
  next
    case True
    then have "i < length (tasks (runs s ! r'))" "\<not> resolved (t_pc (tasks (runs s ! r') ! i))"
      by (simp_all add: chat_valid_def)
    with True ChatSettled assms show ?thesis
      by (auto simp: counter_ok_def chat_settled_tasks chat_settled_counter
          length_filter_update resolved_chat_pc)
  qed
next
  case (AddSettled r' i ok)
  show ?thesis
  proof (cases "add_valid s r' i")
    case False
    with AddSettled assms show ?thesis by (simp add: add_settled_invalid)
  next
    case True
    then obtain p where v: "r' < length (runs s)" "i < length (tasks (runs s ! r'))"
      "t_pc (tasks (runs s ! r') ! i) = AwaitAdd p"
      by (auto simp: add_valid_def split: pc.splits)
    then have "resolved (t_pc (tasks (runs s ! r') ! i))" by simp
    with v AddSettled assms show ?thesis
      by (auto simp: counter_ok_def add_settled_tasks [OF v] length_filter_update_same)
  qed
qed

lemma counter_ok_exec:
  "r < length (runs s) \<Longrightarrow> counter_ok s r \<Longrightarrow> counter_ok (exec s es) r"
  unfolding exec_def
proof (induction es arbitrary: s)
  case Nil
  then show ?case by simp
next
  case (Cons e es)
  have "r < length (runs (step s e))"
    using Cons.prems(1) runs_length_step [of s e] by simp
  moreover have "counter_ok (step s e) r"
    using Cons.prems by (rule counter_ok_step)
  ultimately show ?case using Cons.IH by simp
qed

lemma counter_ok_click:
  "ollamaInstance s \<Longrightarrow> counter_ok (handleClick u q s) (length (runs s))"
  by (simp add: counter_ok_def handleClick_runs filter_empty_conv)

lemma rejected_counter_less:
  assumes "counter_ok s r" "i < length (tasks (runs s ! r))"
    "t_pc (tasks (runs s ! r) ! i) = ChatRejected"
  shows "counter (runs s ! r) < length (tasks (runs s ! r))"
proof (rule ccontr)
  assume "\<not> counter (runs s ! r) < length (tasks (runs s ! r))"
  with assms(1) have "length (filter (\<lambda>t. resolved (t_pc t)) (tasks (runs s ! r))) =
      length (tasks (runs s ! r))"
    using length_filter_le [of "\<lambda>t. resolved (t_pc t)" "tasks (runs s ! r)"]
    by (simp add: counter_ok_def)
  from filter_all_length [OF this assms(2)] assms(3) show False by simp
qed

lemma tasks_length_exec:
  "r < length (runs s) \<Longrightarrow> length (tasks (runs (exec s es) ! r)) = length (tasks (runs s ! r))"
  using task_names_exec [of r s es] by (metis length_map task_names_def)

lemma tasks_length_click:
  "ollamaInstance s \<Longrightarrow>
     length (tasks (runs (handleClick u q s) ! length (runs s))) = length (filter llm_selected (llm s))"
  using task_names_click [of s u q] by (metis length_map task_names_def)


subsection \<open>A run that goes on alone\<close>

lemma alone_inv_step:
  assumes inv: "alone_inv r s" and e: "\<not> is_click e"
  shows "alone_inv r (step s e)"
proof -
  from inv have r: "r < length (runs s)"
    and len: "length (selectedLLM s) = length (tasks (runs s ! r))"
    and cnt: "counter_ok s r"
    and others: "\<And>j i. j < length (runs s) \<Longrightarrow> j \<noteq> r \<Longrightarrow> i < length (tasks (runs s ! j)) \<Longrightarrow>
        \<not> suspended (t_pc (tasks (runs s ! j) ! i))"
    and busy: "running s \<or> counter (runs s ! r) = length (selectedLLM s)"
    unfolding alone_inv_def by blast+
  show ?thesis
  proof (cases e)
    case (Toggle idx)
    with inv show ?thesis by (auto simp: alone_inv_def counter_ok_def)
  next
    case (Click u q)
    with e show ?thesis by simp
  next
    case (ChatSettled r' i out)
    show ?thesis
    proof (cases "chat_valid s r' i")
      case False
      with ChatSettled inv show ?thesis by (simp add: chat_settled_invalid)
    next
      case True
      then have v: "r' < length (runs s)" "i < length (tasks (runs s ! r'))"
        "t_pc (tasks (runs s ! r') ! i) = AwaitChat"
        by (simp_all add: chat_valid_def)
      with others [of r' i] have same: "r' = r" by auto
      have c': "counter_ok (step s e) r"
        using r cnt by (rule counter_ok_step)
      have run: "running s"
      proof (rule ccontr)
        assume "\<not> running s"
        with busy len cnt have "length (filter (\<lambda>t. resolved (t_pc t)) (tasks (runs s ! r))) =
            length (tasks (runs s ! r))"
          by (simp add: counter_ok_def)
        from filter_all_length [OF this, of i] v same show False by simp
      qed
      show ?thesis
        unfolding alone_inv_def
      proof (intro conjI allI impI)
        show "r < length (runs (step s e))" using r ChatSettled by simp
        show "length (selectedLLM (step s e)) = length (tasks (runs (step s e) ! r))"
          using len r by (simp add: tasks_length_step) (simp add: ChatSettled)
        show "counter_ok (step s e) r" by (rule c')
        show "running (step s e) \<or> counter (runs (step s e) ! r) = length (selectedLLM (step s e))"
          using run ChatSettled by simp
      next
        fix j k
        assume "j < length (runs (step s e))" "j \<noteq> r" "k < length (tasks (runs (step s e) ! j))"
        with others [of j k] ChatSettled [unfolded same]
        show "\<not> suspended (t_pc (tasks (runs (step s e) ! j) ! k))"
          by (simp add: chat_settled_tasks [OF True [unfolded same]])
      qed
    qed
  next
    case (AddSettled r' i ok)
    show ?thesis
    proof (cases "add_valid s r' i")
      case False
      with AddSettled inv show ?thesis by (simp add: add_settled_invalid)
    next
      case True
      then obtain p where v: "r' < length (runs s)" "i < length (tasks (runs s ! r'))"
        "t_pc (tasks (runs s ! r') ! i) = AwaitAdd p"
        by (auto simp: add_valid_def split: pc.splits)
      with others [of r' i] have same: "r' = r" by auto
      have c': "counter_ok (step s e) r"
        using r cnt by (rule counter_ok_step)
      show ?thesis
        unfolding alone_inv_def
      proof (intro conjI allI impI)
        show "r < length (runs (step s e))" using r AddSettled by simp
        show "length (selectedLLM (step s e)) = length (tasks (runs (step s e) ! r))"
          using len r by (simp add: tasks_length_step) (simp add: AddSettled)
        show "counter_ok (step s e) r" by (rule c')
        show "running (step s e) \<or> counter (runs (step s e) ! r) = length (selectedLLM (step s e))"
          using busy same by (simp add: step_running) (simp add: AddSettled)
      next
        fix j k
        assume "j < length (runs (step s e))" "j \<noteq> r" "k < length (tasks (runs (step s e) ! j))"
        with others [of j k] AddSettled [unfolded same]
        show "\<not> suspended (t_pc (tasks (runs (step s e) ! j) ! k))"
          by (simp add: add_settled_tasks [OF v [unfolded same]])
      qed
    qed
  qed
qed

lemma alone_inv_exec:
  "alone_inv r s \<Longrightarrow> list_all (\<lambda>e. \<not> is_click e) es \<Longrightarrow> alone_inv r (exec s es)"
  unfolding exec_def
  by (induction es arbitrary: s) (simp_all add: alone_inv_step)

lemma alone_inv_click:
  assumes "ollamaInstance s" "quiescent s"
  shows "alone_inv (length (runs s)) (handleClick u q s)"
proof -
  from assms(2) have q: "\<And>j i. j < length (runs s) \<Longrightarrow> i < length (tasks (runs s ! j)) \<Longrightarrow>
      \<not> suspended (t_pc (tasks (runs s ! j) ! i))"
    by (simp add: quiescent_def list_all_length)
  have c: "counter_ok (handleClick u q s) (length (runs s))"
    using assms(1) by (rule counter_ok_click)
  show ?thesis
    unfolding alone_inv_def
  proof (intro conjI allI impI)
    show "length (runs s) < length (runs (handleClick u q s))"
      using assms(1) by (simp add: handleClick_runs)
    show "length (selectedLLM (handleClick u q s)) =
        length (tasks (runs (handleClick u q s) ! length (runs s)))"
      using assms(1) by (simp add: handleClick_def Let_def)
    show "counter_ok (handleClick u q s) (length (runs s))" by (rule c)
    show "running (handleClick u q s) \<or>
        counter (runs (handleClick u q s) ! length (runs s)) = length (selectedLLM (handleClick u q s))"
      using assms(1) by (simp add: handleClick_def Let_def)
  next
    fix j i
    assume "j < length (runs (handleClick u q s))" "j \<noteq> length (runs s)"
      "i < length (tasks (runs (handleClick u q s) ! j))"
    with q [of j i] assms(1)
    show "\<not> suspended (t_pc (tasks (runs (handleClick u q s) ! j) ! i))"
      by (simp add: handleClick_runs nth_append)
  qed
qed

lemma exec_append: "exec s (es @ es') = exec (exec s es) es'"
  by (simp add: exec_def)

lemma runs_length_exec: "length (runs s) \<le> length (runs (exec s es))"
  unfolding exec_def
proof (induction es arbitrary: s)
  case Nil
  show ?case by simp
next
  case (Cons e es)
  have "length (runs s) \<le> length (runs (step s e))" by (rule runs_length_step)
  also have "\<dots> \<le> length (runs (foldl step (step s e) es))" by (rule Cons.IH)
  finally show ?case by simp
qed

lemma unfinished_name_not_finished:
  assumes "distinct (task_names s r)" "i < length (tasks (runs s ! r))"
    "t_pc (tasks (runs s ! r) ! i) \<noteq> Finished"
  shows "task_names s r ! i \<notin> set (finished_names s r)"
proof
  let ?f = "\<lambda>t. llm_name (llm s ! t_llm t)"
  let ?ts = "tasks (runs s ! r)"
  assume "task_names s r ! i \<in> set (finished_names s r)"
  then obtain t where t: "t \<in> set ?ts" "t_pc t = Finished" "?f t = task_names s r ! i"
    by (auto simp: finished_names_def)
  then obtain j where j: "j < length ?ts" "?ts ! j = t"
    by (auto simp: in_set_conv_nth)
  with t assms(2) have "task_names s r ! j = task_names s r ! i"
    by (simp add: task_names_def)
  moreover have "j < length (task_names s r)" "i < length (task_names s r)"
    using j assms(2) by (simp_all add: task_names_def)
  ultimately have "j = i"
    using assms(1) by (simp add: nth_eq_iff_index_eq)
  with j t assms(3) show False by simp
qed

lemma chat_throws_changes_nothing:
  "results (chat_settled r i ChatThrows s) = results s \<and>
   responses (chat_settled r i ChatThrows s) = responses s \<and>
   counter (runs (chat_settled r i ChatThrows s) ! j) = counter (runs s ! j)"
  by (simp add: chat_settled_def)

text \<open>
  Claim C3, as amended. A chat request that throws changes neither the counter, nor
  \<open>_results\<close>, nor the table. In a run (submitted as \<open>u\<close>, \<open>q\<close> from a state \<open>s0\<close>,
  followed by any events \<open>es\<close>) in which the request of callback \<open>i\<close> has thrown, that
  callback stays rejected whatever happens later, and the counter of the run stays below the
  number of selected models. If the run goes on alone (no callback of an earlier run is
  suspended and no further click comes), the element is still busy, with \<open>_selectedLLM\<close>
  the run's selection. And under the conditions of claim C1, no row of the run carries the
  failed model's name.
\<close>

theorem failed_request_blocks_run:
  fixes s0 :: ArenaGenerator and u q :: string and es :: "event list" and i :: nat
  defines "r \<equiv> length (runs s0)" and "s \<equiv> exec (step s0 (Click u q)) es"
  assumes oi: "ollamaInstance s0" and i: "i < length (tasks (runs s ! r))"
    and rej: "t_pc (tasks (runs s ! r) ! i) = ChatRejected"
  shows "(\<forall>s' r' j k. results (chat_settled r' j ChatThrows s') = results s' \<and>
            responses (chat_settled r' j ChatThrows s') = responses s' \<and>
            counter (runs (chat_settled r' j ChatThrows s') ! k) = counter (runs s' ! k)) \<and>
         (\<forall>es'. t_pc (tasks (runs (exec s es') ! r) ! i) = ChatRejected \<and>
            counter (runs (exec s es') ! r) < length (filter llm_selected (llm s0))) \<and>
         (quiescent s0 \<and> list_all (\<lambda>e. \<not> is_click e) es \<longrightarrow>
            running s \<and> length (selectedLLM s) = length (filter llm_selected (llm s0))) \<and>
         (dexie s0 \<and> pending_ok s0 \<and> fresh_uuid u s0 \<and> list_all (other_uuid u) es \<and>
          distinct (map llm_name (filter llm_selected (llm s0))) \<longrightarrow>
            task_names s r ! i \<notin> set (map model_name (rows_of u s)))"
proof (intro conjI allI impI)
  let ?s1 = "handleClick u q s0"
  have s: "s = exec ?s1 es" by (simp add: s_def)
  have r1: "r < length (runs ?s1)" using oi by (simp add: r_def handleClick_runs)
  have rs: "r < length (runs s)"
    using r1 runs_length_exec [of ?s1 es] by (simp add: s)
  have len: "length (tasks (runs s ! r)) = length (filter llm_selected (llm s0))"
    using r1 oi by (simp add: s tasks_length_exec) (simp add: r_def tasks_length_click)
  have c: "counter_ok s r"
    unfolding s using r1 counter_ok_click [OF oi, of u q] by (simp add: counter_ok_exec r_def)
  {
    fix es'
    have pc: "t_pc (tasks (runs (exec s es') ! r) ! i) = ChatRejected"
      using rs i rej by (simp add: pc_terminal_exec)
    have "counter_ok (exec s es') r"
      using rs c by (rule counter_ok_exec)
    moreover have l': "length (tasks (runs (exec s es') ! r)) = length (tasks (runs s ! r))"
      using rs by (rule tasks_length_exec)
    ultimately have "counter (runs (exec s es') ! r) < length (tasks (runs (exec s es') ! r))"
      using pc i by (intro rejected_counter_less [where i = i]) simp_all
    with l' len have "counter (runs (exec s es') ! r) < length (filter llm_selected (llm s0))"
      by simp
    note pc this
  }
  note future = this
  show "t_pc (tasks (runs (exec s es') ! r) ! i) = ChatRejected" for es'
    by (rule future)
  show "counter (runs (exec s es') ! r) < length (filter llm_selected (llm s0))" for es'
    by (rule future)
  show "results (chat_settled r' j ChatThrows s') = results s'"
    "responses (chat_settled r' j ChatThrows s') = responses s'"
    "counter (runs (chat_settled r' j ChatThrows s') ! k) = counter (runs s' ! k)" for s' r' j k
    by (simp_all add: chat_throws_changes_nothing)
  {
    assume alone: "quiescent s0 \<and> list_all (\<lambda>e. \<not> is_click e) es"
    then have "alone_inv r ?s1"
      using oi by (simp add: r_def alone_inv_click)
    with alone have inv: "alone_inv r s"
      by (simp add: s alone_inv_exec)
    then have sel: "length (selectedLLM s) = length (tasks (runs s ! r))"
      and busy: "running s \<or> counter (runs s ! r) = length (selectedLLM s)"
      unfolding alone_inv_def by blast+
    from future(2) [of "[]"] have "counter (runs s ! r) < length (filter llm_selected (llm s0))"
      by (simp add: exec_def)
    with sel len busy show "running s" by simp
    from sel len show "length (selectedLLM s) = length (filter llm_selected (llm s0))" by simp
  }
  {
    assume wf: "dexie s0 \<and> pending_ok s0 \<and> fresh_uuid u s0 \<and> list_all (other_uuid u) es \<and>
      distinct (map llm_name (filter llm_selected (llm s0)))"
    have inv1: "run_inv r u q ?s1"
      using oi wf by (simp add: r_def run_inv_after_click)
    have p1: "pending_ok ?s1"
      using wf by (simp add: pending_ok_click)
    from run_inv_exec [OF inv1 p1] wf have inv: "run_inv r u q s"
      by (simp add: s)
    have names: "task_names s r = map llm_name (filter llm_selected (llm s0))"
      using r1 oi by (simp add: s task_names_exec) (simp add: r_def task_names_click)
    with wf have "distinct (task_names s r)" by simp
    from unfinished_name_not_finished [OF this i] rej
    have "task_names s r ! i \<notin> set (finished_names s r)" by simp
    moreover have "set (map model_name (rows_of u s)) = set (finished_names s r)"
      using run_invD(7) [OF inv] by (rule mset_eq_setD)
    ultimately show "task_names s r ! i \<notin> set (map model_name (rows_of u s))" by simp
  }
qed

theorem failed_request_blocks_run_witness:
  "ollamaInstance ex_ready \<and>
   0 < length (tasks (runs (exec (step ex_ready (Click ''run-1'' ''Hello'')) ex_failing_schedule) !
         length (runs ex_ready))) \<and>
   t_pc (tasks (runs (exec (step ex_ready (Click ''run-1'' ''Hello'')) ex_failing_schedule) !
         length (runs ex_ready)) ! 0) = ChatRejected \<and>
   quiescent ex_ready \<and> list_all (\<lambda>e. \<not> is_click e) ex_failing_schedule \<and>
   dexie ex_ready \<and> pending_ok ex_ready \<and> fresh_uuid ''run-1'' ex_ready \<and>
   list_all (other_uuid ''run-1'') ex_failing_schedule \<and>
   distinct (map llm_name (filter llm_selected (llm ex_ready))) \<and>
   counter (runs (exec (exec (step ex_ready (Click ''run-1'' ''Hello'')) ex_failing_schedule) []) !
      length (runs ex_ready)) < length (filter llm_selected (llm ex_ready)) \<and>
   running (exec (step ex_ready (Click ''run-1'' ''Hello'')) ex_failing_schedule) \<and>
   task_names (exec (step ex_ready (Click ''run-1'' ''Hello'')) ex_failing_schedule)
      (length (runs ex_ready)) ! 0
     \<notin> set (map model_name
         (rows_of ''run-1'' (exec (step ex_ready (Click ''run-1'' ''Hello'')) ex_failing_schedule)))"
proof -
  have h1: "ollamaInstance ex_ready" by code_simp
  have h2: "0 < length (tasks (runs (exec (step ex_ready (Click ''run-1'' ''Hello''))
      ex_failing_schedule) ! length (runs ex_ready)))" by code_simp
  have h3: "t_pc (tasks (runs (exec (step ex_ready (Click ''run-1'' ''Hello''))
      ex_failing_schedule) ! length (runs ex_ready)) ! 0) = ChatRejected" by code_simp
  have a1: "quiescent ex_ready" by code_simp
  have a2: "list_all (\<lambda>e. \<not> is_click e) ex_failing_schedule" by code_simp
  have w1: "dexie ex_ready" by code_simp
  have w2: "pending_ok ex_ready" by code_simp
  have w3: "fresh_uuid ''run-1'' ex_ready" by code_simp
  have w4: "list_all (other_uuid ''run-1'') ex_failing_schedule" by code_simp
  have w5: "distinct (map llm_name (filter llm_selected (llm ex_ready)))" by code_simp
  from failed_request_blocks_run [OF h1 h2 h3] a1 a2 w1 w2 w3 w4 w5 h1 h2 h3
  show ?thesis by blast
qed

text \<open>
  Claim C3 as stated fails when the run does not go on alone. The first request of the run
  has thrown and its counter stands at 1 of 2; the user has unticked the second model and
  submitted a second prompt, so that \<open>_selectedLLM\<close> has length 1. When the row of the
  first run's second callback is written, that callback finds the length equal to its
  counter and the element leaves the busy state, while the request of the second run is
  still awaited.
\<close>

theorem failed_run_leaves_busy_when_overtaken:
  "t_pc (tasks (runs ex_overtaken ! 0) ! 0) = ChatRejected \<and>
   counter (runs ex_overtaken ! 0) = 1 \<and>
   length (tasks (runs ex_overtaken ! 0)) = 2 \<and>
   running ex_overtaken \<and>
   completes ex_overtaken (AddSettled 0 1 True) \<and>
   \<not> running (step ex_overtaken (AddSettled 0 1 True)) \<and>
   t_pc (tasks (runs (step ex_overtaken (AddSettled 0 1 True)) ! 1) ! 0) = AwaitChat"
  by code_simp

subsection \<open>A chat request that resolves with no response\<close>

text \<open>
  Claim C10. When the chat request of a waiting callback resolves with a falsy value, the
  counter of its run is incremented, nothing is appended to \<open>_results\<close> or written to the
  table, and the callback has returned for good. So a run can leave the busy state with its
  counter at the size of the selection and fewer rows than selected models: the session of
  the examples does, when its first request resolves with no response.
\<close>

theorem falsy_response_counts_without_record:
  assumes "chat_valid s r i"
  shows "counter (runs (chat_settled r i (ChatResolves None now1 now2) s) ! r) =
           counter (runs s ! r) + 1 \<and>
         results (chat_settled r i (ChatResolves None now1 now2) s) = results s \<and>
         responses (chat_settled r i (ChatResolves None now1 now2) s) = responses s \<and>
         (\<forall>es. t_pc (tasks (runs (exec (chat_settled r i (ChatResolves None now1 now2) s) es) ! r) ! i) =
            ReturnedEarly) \<and>
         (\<exists>s0 u q es. ollamaInstance s0 \<and> dexie s0 \<and> fresh_uuid u s0 \<and>
            running (step s0 (Click u q)) \<and>
            \<not> running (exec (step s0 (Click u q)) es) \<and>
            counter (runs (exec (step s0 (Click u q)) es) ! length (runs s0)) =
              length (filter llm_selected (llm s0)) \<and>
            length (rows_of u (exec (step s0 (Click u q)) es)) <
              length (filter llm_selected (llm s0)))"
proof (intro conjI allI)
  let ?s' = "chat_settled r i (ChatResolves None now1 now2) s"
  from assms have v: "r < length (runs s)" "i < length (tasks (runs s ! r))"
    by (simp_all add: chat_valid_def)
  show "counter (runs ?s' ! r) = counter (runs s ! r) + 1"
    using assms by (simp add: chat_settled_counter)
  show "results ?s' = results s"
    using assms by (simp add: chat_settled_def chat_valid_def)
  show "responses ?s' = responses s" by simp
  show "t_pc (tasks (runs (exec ?s' es) ! r) ! i) = ReturnedEarly" for es
  proof -
    have "t_pc (tasks (runs ?s' ! r) ! i) = ReturnedEarly"
      using assms v by (simp add: chat_settled_tasks chat_pc_def)
    moreover have "r < length (runs ?s')" "i < length (tasks (runs ?s' ! r))"
      using assms v by (simp_all add: chat_settled_tasks)
    ultimately show ?thesis by (simp add: pc_terminal_exec)
  qed
  have 1: "ollamaInstance ex_ready" by code_simp
  have 2: "dexie ex_ready" by code_simp
  have 3: "fresh_uuid ''run-1'' ex_ready" by code_simp
  have 4: "running (step ex_ready (Click ''run-1'' ''Hello''))" by code_simp
  have 5: "\<not> running (exec (step ex_ready (Click ''run-1'' ''Hello'')) ex_falsy_schedule)"
    by code_simp
  have 6: "counter (runs (exec (step ex_ready (Click ''run-1'' ''Hello'')) ex_falsy_schedule) !
      length (runs ex_ready)) = length (filter llm_selected (llm ex_ready))"
    by code_simp
  have 7: "length (rows_of ''run-1'' (exec (step ex_ready (Click ''run-1'' ''Hello'')) ex_falsy_schedule)) <
      length (filter llm_selected (llm ex_ready))"
    by code_simp
  from 1 2 3 4 5 6 7
  show "\<exists>s0 u q es. ollamaInstance s0 \<and> dexie s0 \<and> fresh_uuid u s0 \<and>
            running (step s0 (Click u q)) \<and>
            \<not> running (exec (step s0 (Click u q)) es) \<and>
            counter (runs (exec (step s0 (Click u q)) es) ! length (runs s0)) =
              length (filter llm_selected (llm s0)) \<and>
            length (rows_of u (exec (step s0 (Click u q)) es)) <
              length (filter llm_selected (llm s0))"
    by blast
qed


theorem falsy_response_counts_without_record_witness:
  "chat_valid ex_submitted 0 0 \<and>
   counter (runs (chat_settled 0 0 (ChatResolves None ''a'' ''b'') ex_submitted) ! 0) =
     counter (runs ex_submitted ! 0) + 1 \<and>
   results (chat_settled 0 0 (ChatResolves None ''a'' ''b'') ex_submitted) = results ex_submitted \<and>
   responses (chat_settled 0 0 (ChatResolves None ''a'' ''b'') ex_submitted) = responses ex_submitted"
proof -
  have h: "chat_valid ex_submitted 0 0" by code_simp
  from falsy_response_counts_without_record [OF h, of "''a''" "''b''"] h
  show ?thesis by blast
qed

subsection \<open>The timestamp \<open>started\<close>\<close>

text \<open>
  Both readings of the clock are taken when the callback is resumed with the response.
\<close>

lemma started_is_read_when_the_response_is_in:
  assumes "chat_valid s r i" "dexie s"
  shows "\<exists>row. t_pc (tasks (runs (chat_settled r i (ChatResolves (Some response) now1 now2) s) ! r) ! i) =
            AwaitAdd (Some row) \<and> started row = now2 \<and>
         res_started (last (results (chat_settled r i (ChatResolves (Some response) now1 now2) s))) = now1"
  using assms
  by (simp add: chat_settled_tasks chat_pc_def make_row_def)
    (simp add: chat_settled_def chat_valid_def make_entry_def Let_def)

text \<open>
  Claim C7, evaluated on the session of the examples: the run is submitted once, the two
  responses arrive at 10:00:07.1 and 10:00:09.1, and the two rows of the run carry these two
  moments as \<open>started\<close>, not the one moment of the submission.
\<close>

theorem started_is_the_time_of_the_response:
  "map started (rows_of ''run-1'' (exec ex_submitted ex_schedule)) =
     [''2025-03-01T10:00:07.101Z'', ''2025-03-01T10:00:09.101Z''] \<and>
   map res_started (results (exec ex_submitted ex_schedule)) =
     [''2025-03-01T10:00:07.100Z'', ''2025-03-01T10:00:09.100Z''] \<and>
   map created_at (rows_of ''run-1'' (exec ex_submitted ex_schedule)) =
     [''2025-03-01T10:00:07.000Z'', ''2025-03-01T10:00:09.000Z'']"
  by code_simp

section \<open>Properties of the exporter\<close>

declare decimal.simps [simp del] bitlen.simps [simp del]

subsection \<open>Cells without separators\<close>

lemma clean_replace_specials [simp]: "clean (replace_specials v)"
  by (auto simp: clean_def replace_specials_def TAB_def CR_def LF_def)

lemma digit_in: "d < 10 \<Longrightarrow> digit d \<in> set ''0123456789''"
  unfolding digit_def by (rule nth_mem) simp

lemma set_decimal: "set (decimal n) \<subseteq> set ''0123456789''"
proof (induction n rule: decimal.induct)
  case (1 n)
  show ?case
  proof (cases "n < 10")
    case True
    then show ?thesis using digit_in [of n] by (subst decimal.simps) simp
  next
    case False
    with 1 digit_in [of "n mod 10"] show ?thesis by (subst decimal.simps) simp
  qed
qed

lemma clean_decimal [simp]: "clean (decimal n)"
  using set_decimal [of n] by (auto simp: clean_def TAB_def CR_def LF_def)

lemma clean_escapeTSVValue: "\<forall>x. clean (big x) \<Longrightarrow> clean (escapeTSVValue big v)"
  by (cases v) simp_all

lemma clean_escaped_string [simp]: "clean (escapeTSVValue big (StringValue v))"
  by simp

lemma clean_export_row:
  assumes "\<forall>x. clean (big x)" "cell \<in> set (export_row humanFileSize big result)"
  shows "clean cell"
  using assms(2) clean_escapeTSVValue [OF assms(1)]
  by (auto simp: export_row_def simp del: escapeTSVValue.simps)

lemma length_export_row [simp]: "length (export_row humanFileSize big result) = 16"
  by (simp add: export_row_def)

subsection \<open>Splitting what was joined\<close>

lemma split_on_free: "sep \<notin> set w \<Longrightarrow> split_on sep w = [w]"
  by (induction w) auto

lemma split_on_append: "sep \<notin> set w \<Longrightarrow> split_on sep (w @ sep # rest) = w # split_on sep rest"
  by (induction w) auto

lemma split_on_join:
  "cells \<noteq> [] \<Longrightarrow> \<forall>cell\<in>set cells. sep \<notin> set cell \<Longrightarrow>
     split_on sep (join [sep] cells) = cells"
proof (induction cells rule: induct_list012)
  case 1
  then show ?case by simp
next
  case (2 x)
  then show ?case by (simp add: split_on_free)
next
  case (3 x y ys)
  then show ?case by (simp add: split_on_append)
qed

lemma set_join: "set (join sep cells) \<subseteq> set sep \<union> \<Union> (set ` set cells)"
proof (induction cells rule: induct_list012)
  case 1
  show ?case by simp
next
  case (2 x)
  show ?case by simp
next
  case (3 x y ys)
  then show ?case by auto
qed

lemma LF_not_in_line:
  assumes "\<forall>cell\<in>set cells. clean cell"
  shows "LF \<notin> set (join [TAB] cells)"
proof
  assume "LF \<in> set (join [TAB] cells)"
  with set_join [of "[TAB]" cells] have "LF = TAB \<or> (\<exists>cell\<in>set cells. LF \<in> set cell)"
    by auto
  with assms show False by (auto simp: clean_def TAB_def LF_def)
qed

lemma headers_escaped: "map replace_specials headers = headers"
  by code_simp

lemma clean_headers: "\<forall>h\<in>set headers. clean h"
  by code_simp

lemma TAB_not_in_clean: "clean cell \<Longrightarrow> TAB \<notin> set cell"
  by (simp add: clean_def)

lemma lines_of_tsvContent:
  assumes "\<forall>x. clean (big x)"
  shows "split_on LF (tsvContent humanFileSize big rs) =
     join [TAB] headers # map (\<lambda>r. join [TAB] (export_row humanFileSize big r)) rs"
proof -
  let ?lines = "join [TAB] headers # map (\<lambda>r. join [TAB] (export_row humanFileSize big r)) rs"
  have "\<forall>line\<in>set ?lines. LF \<notin> set line"
    using clean_headers clean_export_row [OF assms] by (auto intro!: LF_not_in_line)
  then have "split_on LF (join [LF] ?lines) = ?lines"
    by (intro split_on_join) simp_all
  then show ?thesis
    by (simp add: tsvContent_def headers_escaped comp_def)
qed

lemma fields_of_row:
  assumes "\<forall>x. clean (big x)"
  shows "split_on TAB (join [TAB] (export_row humanFileSize big r)) = export_row humanFileSize big r"
proof (rule split_on_join)
  show "export_row humanFileSize big r \<noteq> []" by (simp add: export_row_def)
  show "\<forall>cell\<in>set (export_row humanFileSize big r). TAB \<notin> set cell"
    using clean_export_row [OF assms] TAB_not_in_clean by blast
qed

lemma fields_of_header: "split_on TAB (join [TAB] headers) = headers"
proof (rule split_on_join)
  show "headers \<noteq> []" by (simp add: headers_def)
  show "\<forall>cell\<in>set headers. TAB \<notin> set cell"
    using clean_headers TAB_not_in_clean by blast
qed

subsection \<open>Rounding to a double\<close>

lemma pow2_powi: "pow2 e = 2 powi e"
proof (cases "0 \<le> e")
  case True
  then show ?thesis by (simp add: pow2_def power_int_def)
next
  case False
  then have "pow2 e = inverse (2 ^ nat (- e))"
    by (simp add: pow2_def inverse_eq_divide)
  also have "\<dots> = 2 powi e"
    using False by (simp add: power_int_def power_one_over inverse_eq_divide)
  finally show ?thesis .
qed

lemma pow2_pos [simp]: "0 < pow2 e"
  by (simp add: pow2_powi)

lemma pow2_add: "pow2 (a + b) = pow2 a * pow2 b"
  by (simp add: pow2_powi power_int_add)

lemma pow2_mono: "a \<le> b \<Longrightarrow> pow2 a \<le> pow2 b"
  by (simp add: pow2_powi power_int_increasing)

lemma pow2_nat [simp]: "pow2 (int n) = 2 ^ n"
  by (simp add: pow2_def)

lemma pow2_minus_nat: "pow2 (- int n) = 1 / 2 ^ n"
  by (cases "n = 0") (simp_all add: pow2_def)

lemma bitlen_pos: "0 < n \<Longrightarrow> 0 < bitlen n"
  by (subst bitlen.simps) simp

lemma bitlen_bounds: "0 < n \<Longrightarrow> 2 ^ (bitlen n - 1) \<le> n \<and> n < 2 ^ bitlen n"
proof (induction n rule: bitlen.induct)
  case (1 n)
  show ?case
  proof (cases "n div 2 = 0")
    case True
    with 1(2) have "n = 1" by (simp add: div_eq_0_iff)
    then show ?thesis by (simp add: bitlen.simps)
  next
    case False
    with 1 have ih: "2 ^ (bitlen (n div 2) - 1) \<le> n div 2" "n div 2 < 2 ^ bitlen (n div 2)"
      by simp_all
    from False have b: "0 < bitlen (n div 2)" by (simp add: bitlen_pos)
    have eq: "bitlen n = Suc (bitlen (n div 2))"
      using 1(2) by (subst bitlen.simps) simp
    from b have "(2::nat) ^ bitlen (n div 2) = 2 * 2 ^ (bitlen (n div 2) - 1)"
      by (cases "bitlen (n div 2)") simp_all
    with ih(1) have "2 ^ bitlen (n div 2) \<le> n" by simp
    moreover from ih(2) have "n < 2 * 2 ^ bitlen (n div 2)" by simp
    ultimately show ?thesis by (simp add: eq)
  qed
qed

lemma bitlen_bounds_rat:
  assumes "0 < n"
  shows "pow2 (int (bitlen n) - 1) \<le> of_nat n" "(of_nat n :: rat) < pow2 (int (bitlen n))"
proof -
  from bitlen_bounds [OF assms] have lo: "2 ^ (bitlen n - 1) \<le> n" and hi: "n < 2 ^ bitlen n"
    by simp_all
  from bitlen_pos [OF assms] have "int (bitlen n) - 1 = int (bitlen n - 1)" by simp
  then have "pow2 (int (bitlen n) - 1) = 2 ^ (bitlen n - 1)" by (simp only: pow2_nat)
  also have "\<dots> = of_nat (2 ^ (bitlen n - 1))" by simp
  also have "\<dots> \<le> of_nat n" using lo by (simp only: of_nat_le_iff)
  finally show "pow2 (int (bitlen n) - 1) \<le> of_nat n" .
  have "(of_nat n :: rat) < of_nat (2 ^ bitlen n)" using hi by (simp only: of_nat_less_iff)
  then show "(of_nat n :: rat) < pow2 (int (bitlen n))" by simp
qed

lemma floor_log2_bounds:
  assumes "0 < x"
  shows "pow2 (floor_log2 x) \<le> x \<and> x < pow2 (floor_log2 x + 1)"
proof (cases "1 \<le> x")
  case True
  let ?N = "nat \<lfloor>x\<rfloor>"
  from True have "1 \<le> \<lfloor>x\<rfloor>" by simp
  then have N: "0 < ?N" by simp
  have fl: "floor_log2 x = int (bitlen ?N) - 1"
    using True by (simp add: floor_log2_def)
  have "of_nat ?N = (of_int \<lfloor>x\<rfloor> :: rat)" using N by simp
  then have le: "of_nat ?N \<le> x" and lt: "x < of_nat ?N + 1"
    by linarith+
  from bitlen_bounds [OF N] have "?N < 2 ^ bitlen ?N" by (rule conjunct2)
  then have "?N + 1 \<le> 2 ^ bitlen ?N" by linarith
  then have "(of_nat (?N + 1) :: rat) \<le> of_nat (2 ^ bitlen ?N)" by (simp only: of_nat_le_iff)
  then have "of_nat ?N + 1 \<le> pow2 (int (bitlen ?N))" by simp
  with lt have "x < pow2 (floor_log2 x + 1)" by (simp add: fl)
  moreover from bitlen_bounds_rat(1) [OF N] le have "pow2 (floor_log2 x) \<le> x" by (simp add: fl)
  ultimately show ?thesis by simp
next
  case False
  with assms have x: "0 < x" "x < 1" by simp_all
  let ?M = "\<lceil>1 / x\<rceil>"
  let ?K = "nat (?M - 1)"
  from x have "1 < 1 / x" by simp
  with le_of_int_ceiling [of "1 / x"] have "(1 :: rat) < of_int ?M" by linarith
  then have "1 < ?M" by linarith
  then have K: "0 < ?K" and KM: "int ?K = ?M - 1" by linarith+
  have fl: "floor_log2 x = - int (bitlen ?K)"
    using False by (simp add: floor_log2_def)
  have up: "1 / x \<le> of_int ?M" by (rule le_of_int_ceiling)
  have lo: "of_int ?M - 1 < 1 / x" by linarith
  have Kr: "(of_nat ?K :: rat) = of_int ?M - 1"
    using KM by (metis of_int_1 of_int_diff of_int_of_nat_eq)
  from bitlen_bounds [OF K] have "?K < 2 ^ bitlen ?K" by (rule conjunct2)
  then have "?K + 1 \<le> 2 ^ bitlen ?K" by linarith
  then have "(of_nat (?K + 1) :: rat) \<le> of_nat (2 ^ bitlen ?K)" by (simp only: of_nat_le_iff)
  then have hM: "of_int ?M \<le> (2::rat) ^ bitlen ?K" using Kr by simp
  from up hM have "1 / x \<le> 2 ^ bitlen ?K" by (rule order_trans)
  with x have "1 \<le> 2 ^ bitlen ?K * x" by (simp add: field_simps)
  then have "1 / 2 ^ bitlen ?K \<le> x" by (simp add: field_simps)
  then have a: "pow2 (floor_log2 x) \<le> x" by (simp add: fl pow2_minus_nat)
  from bitlen_bounds_rat(1) [OF K] Kr lo have "pow2 (int (bitlen ?K) - 1) < 1 / x" by simp
  with x have "pow2 (int (bitlen ?K) - 1) * x < 1" by (simp add: field_simps)
  moreover have "pow2 (int (bitlen ?K) - 1) * pow2 (- int (bitlen ?K) + 1) = 1"
    by (simp add: pow2_add [symmetric] pow2_def)
  ultimately have "pow2 (int (bitlen ?K) - 1) * x <
      pow2 (int (bitlen ?K) - 1) * pow2 (- int (bitlen ?K) + 1)" by simp
  then have "x < pow2 (- int (bitlen ?K) + 1)" by (simp only: mult_less_cancel_left_pos pow2_pos)
  with a show ?thesis by (simp add: fl)
qed

lemma floor_log2_unique:
  assumes "pow2 k \<le> x" "x < pow2 (k + 1)"
  shows "floor_log2 x = k"
proof -
  from assms(1) have "0 < x" using pow2_pos [of k] by linarith
  from floor_log2_bounds [OF this] have b: "pow2 (floor_log2 x) \<le> x" "x < pow2 (floor_log2 x + 1)"
    by simp_all
  have "\<not> floor_log2 x < k"
  proof
    assume "floor_log2 x < k"
    then have "pow2 (floor_log2 x + 1) \<le> pow2 k" by (intro pow2_mono) simp
    with b(2) assms(1) show False by linarith
  qed
  moreover have "\<not> k < floor_log2 x"
  proof
    assume "k < floor_log2 x"
    then have "pow2 (k + 1) \<le> pow2 (floor_log2 x)" by (intro pow2_mono) simp
    with b(1) assms(2) show False by linarith
  qed
  ultimately show ?thesis by simp
qed

lemma round_half_even_error: "\<bar>of_int (round_half_even m) - m\<bar> \<le> 1 / 2"
proof -
  have "of_int \<lfloor>m\<rfloor> \<le> m" "m < of_int \<lfloor>m\<rfloor> + 1" by linarith+
  then show ?thesis by (auto simp: round_half_even_def Let_def)
qed

lemma pow2_nonneg [simp]: "0 \<le> pow2 e"
  using pow2_pos [of e] by linarith

lemma pow2_nonzero [simp]: "pow2 e \<noteq> 0"
  using pow2_pos [of e] by linarith

lemma round_double_normal:
  assumes "pow2 k \<le> x" "x < pow2 (k + 1)" "- 1022 \<le> k" "k < 1023"
  shows "round_double x = Num (of_int (round_half_even (x / pow2 (k - 52))) * pow2 (k - 52)) \<and>
         \<bar>of_int (round_half_even (x / pow2 (k - 52))) * pow2 (k - 52) - x\<bar> \<le> x / 2 ^ 53"
proof -
  let ?e = "k - 52"
  let ?n = "round_half_even (x / pow2 ?e)"
  let ?y = "of_int ?n * pow2 ?e"
  from assms(1) have x: "0 < x" using pow2_pos [of k] by linarith
  have fl: "floor_log2 x = k" using assms(1,2) by (rule floor_log2_unique)
  have "\<bar>of_int ?n - x / pow2 ?e\<bar> \<le> 1 / 2" by (rule round_half_even_error)
  then have "\<bar>of_int ?n - x / pow2 ?e\<bar> * pow2 ?e \<le> 1 / 2 * pow2 ?e"
    by (intro mult_right_mono) simp_all
  moreover have "\<bar>of_int ?n - x / pow2 ?e\<bar> * pow2 ?e = \<bar>?y - x\<bar>"
  proof -
    have "\<bar>of_int ?n - x / pow2 ?e\<bar> * pow2 ?e = \<bar>(of_int ?n - x / pow2 ?e) * pow2 ?e\<bar>"
      by (simp add: abs_mult)
    also have "(of_int ?n - x / pow2 ?e) * pow2 ?e = ?y - x"
      by (simp add: field_simps)
    finally show ?thesis .
  qed
  ultimately have err: "\<bar>?y - x\<bar> \<le> 1 / 2 * pow2 ?e" by simp
  have "pow2 k = pow2 (?e + 52)" by simp
  also have "\<dots> = pow2 ?e * pow2 52" by (rule pow2_add)
  also have "pow2 52 = 2 ^ 52" by (simp add: pow2_def)
  finally have pk: "pow2 k = pow2 ?e * 2 ^ 52" .
  then have "1 / 2 * pow2 ?e = pow2 k / 2 ^ 53" by simp
  also have "\<dots> \<le> x / 2 ^ 53" using assms(1) by (simp add: divide_right_mono)
  finally have half: "1 / 2 * pow2 ?e \<le> x / 2 ^ 53" .
  with err have bound: "\<bar>?y - x\<bar> \<le> x / 2 ^ 53" by linarith
  have "pow2 (k + 1) \<le> pow2 1023" using assms(4) by (intro pow2_mono) simp
  also have "pow2 1023 = 2 ^ 1023" by (simp add: pow2_def)
  finally have "x < 2 ^ 1023" using assms(2) by linarith
  moreover have "x / 2 ^ 53 \<le> x" using x by (simp add: field_simps)
  ultimately have "?y < 2 * 2 ^ 1023" using bound by linarith
  then have small: "\<not> 2 ^ 1024 \<le> ?y" by simp
  have "max (floor_log2 \<bar>x\<bar>) (- 1022) - 52 = ?e"
    using x fl assms(3) by simp
  then have "round_double x = Num ?y"
    using x small by (simp add: round_double_def Let_def)
  with bound show ?thesis by simp
qed

lemma round_double_error:
  assumes "pow2 (- 1022) \<le> x" "x < 2 ^ 1023"
  shows "\<exists>y. round_double x = Num y \<and> \<bar>y - x\<bar> \<le> x / 2 ^ 53"
proof -
  from assms(1) have x: "0 < x" using pow2_pos [of "- 1022"] by linarith
  let ?k = "floor_log2 x"
  from floor_log2_bounds [OF x] have b: "pow2 ?k \<le> x" "x < pow2 (?k + 1)" by simp_all
  have lo: "- 1022 \<le> ?k"
  proof (rule ccontr)
    assume "\<not> - 1022 \<le> ?k"
    then have "pow2 (?k + 1) \<le> pow2 (- 1022)" by (intro pow2_mono) simp
    with b(2) assms(1) show False by linarith
  qed
  have hi: "?k < 1023"
  proof (rule ccontr)
    assume "\<not> ?k < 1023"
    then have "pow2 1023 \<le> pow2 ?k" by (intro pow2_mono) simp
    moreover have "pow2 1023 = 2 ^ 1023" by (simp add: pow2_def)
    ultimately show False using b(1) assms(2) by linarith
  qed
  from round_double_normal [OF b lo hi] show ?thesis by blast
qed

subsection \<open>The text of a number with two decimals\<close>

lemma decimal_small: "n < 10 \<Longrightarrow> decimal n = [digit n]"
  by (subst decimal.simps) simp

lemma decimal_big: "10 \<le> n \<Longrightarrow> decimal n = decimal (n div 10) @ [digit (n mod 10)]"
  by (subst decimal.simps) simp

lemma decimal_two: "10 \<le> n \<Longrightarrow> n < 100 \<Longrightarrow> decimal n = [digit (n div 10), digit (n mod 10)]"
  by (simp add: decimal_big decimal_small)

lemma div10_mod10: "(n::nat) div 10 mod 10 = n mod 100 div 10"
proof -
  have "n mod (10 * 10) = 10 * (n div 10 mod 10) + n mod 10"
    by (rule mod_mult2_eq)
  then have "n mod 100 = 10 * (n div 10 mod 10) + n mod 10" by simp
  then show ?thesis by simp
qed

lemma last_two_digits: "10 * ((n::nat) mod 100 div 10) + n mod 10 = n mod 100"
proof -
  have "n mod 100 mod 10 = n mod 10" by (simp add: mod_mod_cancel)
  then show ?thesis by (metis mult_div_mod_eq)
qed

lemma decimal_three:
  assumes "100 \<le> n"
  shows "decimal n = decimal (n div 100) @ [digit (n mod 100 div 10), digit (n mod 10)]"
proof -
  have a: "10 \<le> n" using assms by linarith
  have b: "10 \<le> n div 10" using assms by linarith
  have c: "n div 10 div 10 = n div 100" by (simp only: div_mult2_eq [symmetric]) simp
  have d: "n div 10 mod 10 = n mod 100 div 10" by (rule div10_mod10)
  have "decimal n = decimal (n div 10) @ [digit (n mod 10)]"
    using a by (rule decimal_big)
  also have "decimal (n div 10) = decimal (n div 10 div 10) @ [digit (n div 10 mod 10)]"
    using b by (rule decimal_big)
  finally show ?thesis by (simp only: c d append_assoc append_Cons append_Nil)
qed


lemma decimal_nonempty [simp]: "decimal n \<noteq> []"
  by (subst decimal.simps) simp

lemma digit_0 [simp]: "digit 0 = CHR ''0''"
  by (simp add: digit_def)

lemma fixed2_text:
  assumes "0 \<le> x" "x < 10 ^ 21"
  shows "fixed2 big x =
           decimal (nat \<lfloor>x * 100 + 1 / 2\<rfloor> div 100) @ ''.'' @
             [digit (nat \<lfloor>x * 100 + 1 / 2\<rfloor> mod 100 div 10),
              digit (nat \<lfloor>x * 100 + 1 / 2\<rfloor> mod 10)]"
proof -
  define n where "n = nat \<lfloor>x * 100 + 1 / 2\<rfloor>"
  have f: "fixed2 big x =
      (let m = decimal n;
           m' = (if length m \<le> 2 then replicate (3 - length m) (CHR ''0'') @ m else m);
           k = length m'
       in take (k - 2) m' @ ''.'' @ drop (k - 2) m')"
    using assms(2) by (simp add: fixed2_def n_def Let_def)
  consider "n < 10" | "10 \<le> n" "n < 100" | "100 \<le> n" by linarith
  then have "fixed2 big x = decimal (n div 100) @ ''.'' @ [digit (n mod 100 div 10), digit (n mod 10)]"
  proof cases
    case 1
    then show ?thesis
      by (simp add: f decimal_small Let_def numeral_3_eq_3)
  next
    case 2
    then show ?thesis
      by (simp add: f decimal_two decimal_small Let_def numeral_3_eq_3)
  next
    case 3
    then show ?thesis
      by (simp add: f decimal_three Let_def)
  qed
  then show ?thesis by (simp only: n_def)
qed

subsection \<open>The number that a cell denotes\<close>

lemma digits_value_snoc: "digits_value (cs @ [c]) = 10 * digits_value cs + (of_char c - 48)"
  by simp

lemma digits_value_single: "digits_value [c] = of_char c - 48"
  by simp

declare digits_value.simps [simp del]

lemma all_digits:
  "list_all (\<lambda>d. of_char (digit d) - 48 = d \<and> clean [digit d]) [0..<10]"
  by code_simp

lemma digit_value: "d < 10 \<Longrightarrow> of_char (digit d) - 48 = d"
  using all_digits by (simp add: list_all_iff)

lemma clean_digit: "d < 10 \<Longrightarrow> clean [digit d]"
  using all_digits by (simp add: list_all_iff)

lemma clean_append [simp]: "clean (v @ w) = (clean v \<and> clean w)"
  by (auto simp: clean_def)

lemma clean_point [simp]: "clean ''.''"
  by (simp add: clean_def TAB_def CR_def LF_def)

lemma digits_value_decimal: "digits_value (decimal n) = n"
proof (induction n rule: decimal.induct)
  case (1 n)
  show ?case
  proof (cases "n < 10")
    case True
    then show ?thesis by (simp add: decimal_small digit_value digits_value_single)
  next
    case False
    then have "digits_value (decimal n) = 10 * digits_value (decimal (n div 10)) +
        (of_char (digit (n mod 10)) - 48)"
      by (simp only: decimal_big digits_value_snoc not_less)
    with False 1 show ?thesis by (simp add: digit_value)
  qed
qed

lemma point_not_in_decimal: "c \<in> set (decimal n) \<Longrightarrow> c \<noteq> CHR ''.''"
  using set_decimal [of n] by auto

lemma cell_value_text:
  assumes "b < 10" "c < 10"
  shows "cell_value (decimal a @ ''.'' @ [digit b, digit c]) = of_nat a + of_nat (10 * b + c) / 100"
proof -
  let ?cell = "decimal a @ ''.'' @ [digit b, digit c]"
  have t: "takeWhile (\<lambda>c. c \<noteq> CHR ''.'') ?cell = decimal a"
    using point_not_in_decimal by (simp add: takeWhile_append2)
  have d: "dropWhile (\<lambda>c. c \<noteq> CHR ''.'') ?cell = ''.'' @ [digit b, digit c]"
    using point_not_in_decimal by (simp add: dropWhile_append2)
  have "digits_value [digit b, digit c] = 10 * digits_value [digit b] + (of_char (digit c) - 48)"
    using digits_value_snoc [of "[digit b]" "digit c"] by simp
  then have v: "digits_value [digit b, digit c] = 10 * b + c"
    using assms by (simp add: digit_value digits_value_single)
  show ?thesis
    unfolding cell_value_def t d using v by (simp add: digits_value_decimal)
qed

lemma cell_value_fixed2:
  assumes "0 \<le> x" "x < 10 ^ 21"
  shows "cell_value (fixed2 big x) = of_nat (nat \<lfloor>x * 100 + 1 / 2\<rfloor>) / 100"
proof -
  define n where "n = nat \<lfloor>x * 100 + 1 / 2\<rfloor>"
  have "(of_nat n :: rat) = of_nat (100 * (n div 100) + n mod 100)" by simp
  also have "\<dots> = 100 * of_nat (n div 100) + of_nat (n mod 100)"
    by (simp only: of_nat_add of_nat_mult of_nat_numeral)
  finally have split: "(of_nat n :: rat) / 100 = of_nat (n div 100) + of_nat (n mod 100) / 100"
    by simp
  have "cell_value (fixed2 big x) =
      of_nat (n div 100) + of_nat (10 * (n mod 100 div 10) + n mod 10) / 100"
    unfolding fixed2_text [OF assms] n_def [symmetric]
    by (rule cell_value_text) simp_all
  then have "cell_value (fixed2 big x) = of_nat n / 100"
    by (simp only: last_two_digits split)
  then show ?thesis by (simp only: n_def)
qed

lemma fixed2_near:
  assumes "0 \<le> x" "x < 10 ^ 21"
  shows "\<bar>cell_value (fixed2 big x) - x\<bar> \<le> 1 / 200"
proof -
  let ?t = "x * 100 + 1 / 2"
  have "0 \<le> \<lfloor>?t\<rfloor>" using assms(1) by simp
  then have "(of_nat (nat \<lfloor>?t\<rfloor>) :: rat) = of_int \<lfloor>?t\<rfloor>" by simp
  then have cv: "cell_value (fixed2 big x) = of_int \<lfloor>?t\<rfloor> / 100"
    by (simp only: cell_value_fixed2 [OF assms])
  have "of_int \<lfloor>?t\<rfloor> \<le> ?t" "?t < of_int \<lfloor>?t\<rfloor> + 1" by linarith+
  then have "\<bar>of_int \<lfloor>?t\<rfloor> / 100 - x\<bar> \<le> 1 / 200" by linarith
  then show ?thesis by (simp only: cv)
qed

lemma clean_fixed2:
  assumes "0 \<le> x" "x < 10 ^ 21"
  shows "clean (fixed2 big x)"
proof -
  have "clean [digit (n mod 100 div 10), digit (n mod 10)]" for n
    using clean_digit [of "n mod 100 div 10"] clean_digit [of "n mod 10"]
      clean_append [of "[digit (n mod 100 div 10)]" "[digit (n mod 10)]"]
    by simp
  then show ?thesis
    unfolding fixed2_text [OF assms]
    by (simp only: clean_append clean_decimal clean_point simp_thms)
qed

lemma replace_specials_clean: "clean v \<Longrightarrow> replace_specials v = v"
  unfolding replace_specials_def clean_def by (intro map_idI) auto

subsection \<open>Quotients of fields\<close>

lemma floor_rat_numeral_divide [simp]:
  "\<lfloor>numeral a / numeral b :: rat\<rfloor> = numeral a div numeral b"
  by (metis floor_divide_of_int_eq of_int_numeral)

lemma round_double_at:
  assumes "pow2 k \<le> x" "x < pow2 (k + 1)" "- 1022 \<le> k" "k < 1023"
    and "of_int (round_half_even (x / pow2 (k - 52))) * pow2 (k - 52) = y"
  shows "round_double x = Num y"
  using round_double_normal [OF assms(1-4)] assms(5) by simp

lemma safe_rat: "safe_integer n \<Longrightarrow> (of_nat n :: rat) < 2 ^ 53"
proof -
  assume "safe_integer n"
  then have "(of_nat n :: rat) < of_nat (2 ^ 53)"
    unfolding safe_integer_def by (simp only: of_nat_less_iff)
  then show ?thesis by simp
qed

lemma divide_fields_error:
  assumes "safe_integer a" "safe_integer b" "0 < b"
  shows "\<exists>y. divide_fields a b = Num y \<and> 0 \<le> y \<and> y \<le> 2 * (of_nat a / of_nat b) \<and>
           (0 < a \<longrightarrow> (of_nat a / of_nat b) / 2 \<le> y) \<and>
           \<bar>y - of_nat a / of_nat b\<bar> \<le> of_nat a / of_nat b / 2 ^ 53"
proof (cases "a = 0")
  case True
  with assms(3) show ?thesis by (simp add: divide_fields_def round_double_def)
next
  case False
  define x :: rat where "x = of_nat a / of_nat b"
  from False have a1: "(1::rat) \<le> of_nat a" by simp
  from assms(3) have b0: "(0::rat) < of_nat b" by simp
  have b53: "(of_nat b :: rat) < 2 ^ 53" using assms(2) by (rule safe_rat)
  have a53: "(of_nat a :: rat) < 2 ^ 53" using assms(1) by (rule safe_rat)
  have "1 / 2 ^ 53 \<le> 1 / (of_nat b :: rat)"
    using b0 b53 by (simp add: frac_le)
  also have "\<dots> \<le> x" unfolding x_def using a1 b0 by (simp add: divide_right_mono)
  finally have lo53: "1 / 2 ^ 53 \<le> x" .
  have "pow2 (- 1022) \<le> pow2 (- 53)" by (intro pow2_mono) simp
  also have "pow2 (- 53) = 1 / 2 ^ 53" by (simp add: pow2_def)
  finally have lo: "pow2 (- 1022) \<le> x" using lo53 by linarith
  have "(1::rat) \<le> of_nat b" using assms(3) by simp
  then have "x \<le> of_nat a" unfolding x_def using a1 by (simp add: field_simps)
  with a53 have "x < 2 ^ 53" by linarith
  moreover have "(2::rat) ^ 53 \<le> 2 ^ 1023" by simp
  ultimately have hi: "x < 2 ^ 1023" by linarith
  from round_double_error [OF lo hi] obtain y where y: "round_double x = Num y"
    "\<bar>y - x\<bar> \<le> x / 2 ^ 53" by blast
  have x0: "0 < x" unfolding x_def using a1 b0 by simp
  define err where "err = x / 2 ^ 53"
  have "err \<le> x / 2" using x0 by (simp add: err_def field_simps)
  moreover have "\<bar>y - x\<bar> \<le> err" using y(2) by (simp only: err_def)
  ultimately have "x / 2 \<le> y" "y \<le> 2 * x" "0 \<le> y" using x0 by linarith+
  with y assms(3) False show ?thesis
    unfolding x_def by (simp add: divide_fields_def)
qed

subsection \<open>The cells of durations and throughputs\<close>

lemma num_below_10_21:
  assumes "safe_integer d"
  shows "2 * (of_nat d / 1000000 :: rat) < 10 ^ 21"
proof -
  have "(of_nat d :: rat) < 2 ^ 53" using assms by (rule safe_rat)
  then show ?thesis by simp
qed

lemma duration_cell_value:
  assumes "safe_integer d"
  shows "\<exists>y. divide_fields d 1000000 = Num y \<and>
           \<bar>y - of_nat d / 1000000\<bar> \<le> of_nat d / 1000000 / 2 ^ 53 \<and>
           duration_cell big d = fixed2 big y \<and>
           \<bar>cell_value (duration_cell big d) - y\<bar> \<le> 1 / 200"
proof -
  have s: "safe_integer 1000000" by (simp add: safe_integer_def)
  from divide_fields_error [OF assms s] obtain y where y: "divide_fields d 1000000 = Num y"
    "0 \<le> y" "y \<le> 2 * (of_nat d / of_nat 1000000)"
    "\<bar>y - of_nat d / of_nat 1000000\<bar> \<le> of_nat d / of_nat 1000000 / 2 ^ 53"
    by auto
  from y(3) num_below_10_21 [OF assms] have lt: "y < 10 ^ 21" by simp
  have cell: "duration_cell big d = fixed2 big y"
    using y(1,2) clean_fixed2 [OF y(2) lt, of big]
    by (simp add: duration_cell_def replace_specials_clean)
  have "\<bar>cell_value (fixed2 big y) - y\<bar> \<le> 1 / 200"
    using y(2) lt by (rule fixed2_near)
  with y cell show ?thesis by simp
qed

lemma throughput_error:
  assumes "safe_integer c" "safe_integer d" "0 < d"
  shows "\<exists>z. times_constant (divide_fields c d) 1000000000 = Num z \<and> 0 \<le> z \<and>
           \<bar>z - of_nat c / of_nat d * 1000000000\<bar> \<le> 3 * (of_nat c / of_nat d * 1000000000) / 2 ^ 53"
proof (cases "c = 0")
  case True
  with assms(3) show ?thesis by (simp add: divide_fields_def round_double_def)
next
  case False
  define x :: rat where "x = of_nat c / of_nat d"
  from divide_fields_error [OF assms] obtain y where
    "divide_fields c d = Num y \<and> 0 \<le> y \<and> y \<le> 2 * x \<and> (0 < c \<longrightarrow> x / 2 \<le> y) \<and>
     \<bar>y - x\<bar> \<le> x / 2 ^ 53"
    unfolding x_def by blast
  with False have y: "divide_fields c d = Num y"
    "y \<le> 2 * x" "x / 2 \<le> y" "\<bar>y - x\<bar> \<le> x / 2 ^ 53"
    by simp_all
  from False have c1: "(1::rat) \<le> of_nat c" by simp
  from assms(3) have d0: "(0::rat) < of_nat d" by simp
  have d53: "(of_nat d :: rat) < 2 ^ 53" using assms(2) by (rule safe_rat)
  have c53: "(of_nat c :: rat) < 2 ^ 53" using assms(1) by (rule safe_rat)
  have "1 / 2 ^ 53 \<le> 1 / (of_nat d :: rat)" using d0 d53 by (simp add: frac_le)
  also have "\<dots> \<le> x" unfolding x_def using c1 d0 by (simp add: divide_right_mono)
  finally have xlo: "1 / 2 ^ 53 \<le> x" .
  have "(1::rat) \<le> of_nat d" using assms(3) by simp
  then have "x \<le> of_nat c" unfolding x_def using c1 by (simp add: field_simps)
  with c53 have xhi: "x < 2 ^ 53" by linarith
  define w where "w = y * 1000000000"
  have "pow2 (- 1022) \<le> pow2 (- 54)" by (intro pow2_mono) simp
  also have "pow2 (- 54) = 1 / 2 ^ 54" by (simp add: pow2_def)
  also have "\<dots> \<le> w" using xlo y(3) by (simp add: w_def)
  finally have lo: "pow2 (- 1022) \<le> w" .
  have "w < 2 * 2 ^ 53 * 1000000000" using xhi y(2) by (simp add: w_def)
  moreover have "(2::rat) * 2 ^ 53 * 1000000000 \<le> 2 ^ 1023" by simp
  ultimately have hi: "w < 2 ^ 1023" by linarith
  from round_double_error [OF lo hi] obtain z where z: "round_double w = Num z"
    "\<bar>z - w\<bar> \<le> w / 2 ^ 53" by blast
  define t where "t = x * 1000000000"
  have t0: "0 < t" using xlo by (simp add: t_def)
  have w1: "w \<le> 2 * t" using y(2) by (simp add: w_def t_def)
  have w2: "\<bar>w - t\<bar> \<le> t / 2 ^ 53"
  proof -
    have "w - t = (y - x) * 1000000000"
      by (simp add: w_def t_def algebra_simps)
    then have "\<bar>w - t\<bar> = \<bar>(y - x) * 1000000000\<bar>"
      by (simp only:)
    also have "\<dots> = \<bar>y - x\<bar> * \<bar>1000000000\<bar>"
      by (rule abs_mult)
    finally have "\<bar>w - t\<bar> = \<bar>y - x\<bar> * 1000000000"
      by simp
    also have "\<dots> \<le> x / 2 ^ 53 * 1000000000" using y(4) by simp
    finally show ?thesis by (simp add: t_def)
  qed
  define e1 where "e1 = w / 2 ^ 53"
  define e2 where "e2 = t / 2 ^ 53"
  have "e1 \<le> 2 * e2" using w1 by (simp add: e1_def e2_def)
  moreover have "\<bar>z - w\<bar> \<le> e1" using z(2) by (simp only: e1_def)
  moreover have "\<bar>w - t\<bar> \<le> e2" using w2 by (simp only: e2_def)
  moreover have "3 * e2 \<le> t" using t0 by (simp add: e2_def field_simps)
  ultimately have r: "\<bar>z - t\<bar> \<le> 3 * e2" and z0: "0 \<le> z" using t0 by linarith+
  from r have "\<bar>z - t\<bar> \<le> 3 * t / 2 ^ 53" by (simp add: e2_def)
  with z(1) y(1) z0 show ?thesis
    unfolding t_def x_def w_def by simp
qed

subsection \<open>The cells of the example row\<close>

lemma fixed2_at:
  assumes "0 \<le> x" "x < 10 ^ 21" "nat \<lfloor>x * 100 + 1 / 2\<rfloor> = n"
  shows "fixed2 big x =
           decimal (n div 100) @ ''.'' @ [digit (n mod 100 div 10), digit (n mod 10)]"
  using fixed2_text [OF assms(1,2), of big] assms(3) by simp

lemma ex_total_duration: "divide_fields 3251005000 1000000 = Num (3574517799457915 / 1099511627776)"
proof -
  have "round_double (3251005000 / 1000000) = Num (3574517799457915 / 1099511627776)"
    by (rule round_double_at [where k = 11])
      (simp_all add: pow2_def round_half_even_def Let_def)
  then show ?thesis by (simp add: divide_fields_def)
qed

lemma ex_total_cell: "fixed2 big (3574517799457915 / 1099511627776) = ''3251.01''"
  by (subst fixed2_at [where n = 325101]) (simp_all add: decimal.simps digit_def)

lemma ex_load_duration: "divide_fields 1005000 1000000 = Num (1131529406376837 / 1125899906842624)"
proof -
  have "round_double (1005000 / 1000000) = Num (1131529406376837 / 1125899906842624)"
    by (rule round_double_at [where k = 0])
      (simp_all add: pow2_def round_half_even_def Let_def)
  then show ?thesis by (simp add: divide_fields_def)
qed

lemma ex_load_cell: "fixed2 big (1131529406376837 / 1125899906842624) = ''1.00''"
  by (subst fixed2_at [where n = 100]) (simp_all add: decimal.simps digit_def)

lemma ex_prompt_duration: "divide_fields 250000000 1000000 = Num 250"
proof -
  have "round_double (250000000 / 1000000) = Num 250"
    by (rule round_double_at [where k = 7])
      (simp_all add: pow2_def round_half_even_def Let_def)
  then show ?thesis by (simp add: divide_fields_def)
qed

lemma ex_prompt_cell: "fixed2 big 250 = ''250.00''"
  by (subst fixed2_at [where n = 25000]) (simp_all add: decimal.simps digit_def)

lemma ex_eval_duration: "divide_fields 3000000000 1000000 = Num 3000"
proof -
  have "round_double (3000000000 / 1000000) = Num 3000"
    by (rule round_double_at [where k = 11])
      (simp_all add: pow2_def round_half_even_def Let_def)
  then show ?thesis by (simp add: divide_fields_def)
qed

lemma ex_eval_cell: "fixed2 big 3000 = ''3000.00''"
  by (subst fixed2_at [where n = 300000]) (simp_all add: decimal.simps digit_def)

lemma ex_prompt_rate: "times_constant (divide_fields 11 250000000) 1000000000 = Num 44"
proof -
  have "round_double (11 / 250000000) = Num (1662273001970115 / 37778931862957161709568)"
    by (rule round_double_at [where k = "- 25"])
      (simp_all add: pow2_def round_half_even_def Let_def)
  moreover have "round_double (1662273001970115 / 37778931862957161709568 * 1000000000) = Num 44"
    by (rule round_double_at [where k = 5])
      (simp_all add: pow2_def round_half_even_def Let_def)
  ultimately show ?thesis by (simp add: divide_fields_def)
qed

lemma ex_prompt_rate_cell: "fixed2 big 44 = ''44.00''"
  by (subst fixed2_at [where n = 4400]) (simp_all add: decimal.simps digit_def)

lemma ex_eval_rate:
  "times_constant (divide_fields 128 3000000000) 1000000000 =
     Num (6004799503160661 / 140737488355328)"
proof -
  have "round_double (128 / 3000000000) = Num (3223802185639011 / 75557863725914323419136)"
    by (rule round_double_at [where k = "- 25"])
      (simp_all add: pow2_def round_half_even_def Let_def)
  moreover have "round_double (3223802185639011 / 75557863725914323419136 * 1000000000) =
      Num (6004799503160661 / 140737488355328)"
    by (rule round_double_at [where k = 5])
      (simp_all add: pow2_def round_half_even_def Let_def)
  ultimately show ?thesis by (simp add: divide_fields_def)
qed

lemma ex_eval_rate_cell: "fixed2 big (6004799503160661 / 140737488355328) = ''42.67''"
  by (subst fixed2_at [where n = 4267]) (simp_all add: decimal.simps digit_def)

lemma ex_message: "replace_newline_runs (''Hi!'' @ [CR, LF] @ ''How are you?'') = ''Hi! How are you?''"
  by (simp add: CR_def LF_def)

lemma ex_cells:
  "export_row ex_size big ex_row =
     [''llama'', ''llama3:8b'', ''8.0B'', ''4661 MB'', ''Say hello'', ''Hi! How are you?'',
      ''3251.01'', ''1.00'', ''11'', ''250.00'', ''44.00'', ''128'', ''3000.00'', ''42.67'',
      ''2025-03-01T10:00:07.000Z'', ''run-1'']"
  unfolding export_row_def ex_row_def
  by (simp add: ex_total_duration ex_total_cell ex_load_duration ex_load_cell
      ex_prompt_duration ex_prompt_cell ex_eval_duration ex_eval_cell ex_prompt_rate
      ex_prompt_rate_cell ex_eval_rate ex_eval_rate_cell ex_message ex_size_def
      safe_integer_def decimal.simps digit_def replace_specials_def TAB_def CR_def LF_def)

lemma duration_cell_near:
  assumes "safe_integer d"
  shows "\<bar>cell_value (duration_cell big d) - of_nat d / 1000000\<bar> \<le>
           1 / 200 + of_nat d / 1000000 / 2 ^ 53"
proof -
  from duration_cell_value [OF assms, of big] obtain y where
    y: "\<bar>y - of_nat d / 1000000\<bar> \<le> of_nat d / 1000000 / 2 ^ 53"
       "\<bar>cell_value (duration_cell big d) - y\<bar> \<le> 1 / 200"
    by blast
  define v where "v = cell_value (duration_cell big d)"
  define x :: rat where "x = of_nat d / 1000000"
  define e :: rat where "e = of_nat d / 1000000 / 2 ^ 53"
  from y have "\<bar>y - x\<bar> \<le> e" "\<bar>v - y\<bar> \<le> 1 / 200"
    by (simp_all only: v_def x_def e_def)
  then have "\<bar>v - x\<bar> \<le> 1 / 200 + e" by linarith
  then show ?thesis by (simp only: v_def x_def e_def)
qed

lemma no_newline_after_runs: "CR \<notin> set (replace_newline_runs v) \<and> LF \<notin> set (replace_newline_runs v)"
  by (induction v rule: replace_newline_runs.induct) (auto simp: CR_def LF_def)

lemma replace_specials_after_runs:
  "replace_specials (replace_newline_runs v) =
     map (\<lambda>c. if c = TAB then CHR '' '' else c) (replace_newline_runs v)"
  unfolding replace_specials_def using no_newline_after_runs [of v]
  by (intro map_cong) auto

lemma throughput_cell_zero:
  "throughput_cell big c 0 = (if c = 0 then ''NaN'' else ''Infinity'')"
  by (simp add: throughput_cell_def divide_fields_def replace_specials_def TAB_def CR_def LF_def)

lemma throughput_cell_value:
  assumes "safe_integer c" "safe_integer d" "0 < d"
  shows "\<exists>z. times_constant (divide_fields c d) 1000000000 = Num z \<and> 0 \<le> z \<and>
           \<bar>z - of_nat c / of_nat d * 1000000000\<bar> \<le>
             3 * (of_nat c / of_nat d * 1000000000) / 2 ^ 53 \<and>
           throughput_cell big c d = replace_specials (fixed2 big z) \<and>
           (z < 10 ^ 21 \<longrightarrow>
              throughput_cell big c d = fixed2 big z \<and>
              \<bar>cell_value (throughput_cell big c d) - z\<bar> \<le> 1 / 200)"
proof -
  from throughput_error [OF assms] obtain z where
    z: "times_constant (divide_fields c d) 1000000000 = Num z" "0 \<le> z"
       "\<bar>z - of_nat c / of_nat d * 1000000000\<bar> \<le> 3 * (of_nat c / of_nat d * 1000000000) / 2 ^ 53"
    by blast
  have cell: "throughput_cell big c d = replace_specials (fixed2 big z)"
    using z(1,2) by (simp add: throughput_cell_def)
  have "throughput_cell big c d = fixed2 big z \<and>
        \<bar>cell_value (throughput_cell big c d) - z\<bar> \<le> 1 / 200" if lt: "z < 10 ^ 21"
  proof -
    have "throughput_cell big c d = fixed2 big z"
      using cell clean_fixed2 [OF z(2) lt, of big] by (simp add: replace_specials_clean)
    with fixed2_near [OF z(2) lt, of big] show ?thesis by simp
  qed
  with z cell show ?thesis by blast
qed

subsection \<open>The file: a header and one row per record\<close>

text \<open>
  Claim C4. For a non-empty list of records the exporter offers the file \<open>responses.tsv\<close>.
  After the byte order mark, its lines are the header line and one line per record, in the
  order of the list. The header line has the 16 column names, and the line of a record has
  exactly 16 fields: family, model name, parameters, human-readable size, query, response
  text, total duration, load duration, prompt-eval token count, prompt-eval duration,
  prompt-eval tokens per second, response token count, response duration, response tokens
  per second, created-at, run identifier. A duration field is the stored value divided by
  1,000,000, written with two decimals: what the field reads differs from the quotient by
  the rounding of the division and by half a unit of the second decimal at most. The text
  that \<open>Number::toString\<close> writes holds no tab, carriage return or newline.
\<close>

theorem export_is_header_and_one_row_per_record:
  assumes "rs \<noteq> []" and "\<forall>x. clean (big x)"
  shows "exportToExcel humanFileSize big (Some rs) =
           Download ''responses.tsv'' (bom @ tsvContent humanFileSize big rs) \<and>
         split_on LF (tsvContent humanFileSize big rs) =
           join [TAB] headers # map (\<lambda>r. join [TAB] (export_row humanFileSize big r)) rs \<and>
         split_on TAB (join [TAB] headers) =
           [''Family'', ''Model'', ''Parameters'', ''Size'', ''Query'', ''Response'',
            ''Total Duration'', ''Load Duration'', ''Prompt Eval Token'', ''Prompt Eval Duration'',
            ''Prompt Eval Token/s'', ''Response Token'', ''Response Duration'', ''Response Token/s'',
            ''Created'', ''Group''] \<and>
         (\<forall>r\<in>set rs. split_on TAB (join [TAB] (export_row humanFileSize big r)) =
            [replace_specials (model_family r),
             replace_specials (model_name r),
             replace_specials (parameters r),
             replace_specials (humanFileSize (size_bytes r)),
             replace_specials (query r),
             replace_specials (replace_newline_runs (message r)),
             duration_cell big (total_duration r),
             duration_cell big (load_duration r),
             escapeTSVValue big (NumberValue (prompt_eval_count r)),
             duration_cell big (prompt_eval_duration r),
             throughput_cell big (prompt_eval_count r) (prompt_eval_duration r),
             escapeTSVValue big (NumberValue (eval_count r)),
             duration_cell big (eval_duration r),
             throughput_cell big (eval_count r) (eval_duration r),
             replace_specials (created_at r),
             replace_specials (group_id r)]) \<and>
         (\<forall>d. safe_integer d \<longrightarrow>
            \<bar>cell_value (duration_cell big d) - of_nat d / 1000000\<bar> \<le>
              1 / 200 + of_nat d / 1000000 / 2 ^ 53)"
proof (intro conjI ballI allI impI)
  from assms(1) obtain r rs' where "rs = r # rs'" by (cases rs) auto
  then show "exportToExcel humanFileSize big (Some rs) =
      Download ''responses.tsv'' (bom @ tsvContent humanFileSize big rs)"
    by simp
  show "split_on LF (tsvContent humanFileSize big rs) =
      join [TAB] headers # map (\<lambda>r. join [TAB] (export_row humanFileSize big r)) rs"
    using assms(2) by (rule lines_of_tsvContent)
  show "split_on TAB (join [TAB] headers) =
           [''Family'', ''Model'', ''Parameters'', ''Size'', ''Query'', ''Response'',
            ''Total Duration'', ''Load Duration'', ''Prompt Eval Token'', ''Prompt Eval Duration'',
            ''Prompt Eval Token/s'', ''Response Token'', ''Response Duration'', ''Response Token/s'',
            ''Created'', ''Group'']"
    unfolding fields_of_header by (simp add: headers_def)
next
  fix r
  show "split_on TAB (join [TAB] (export_row humanFileSize big r)) =
            [replace_specials (model_family r),
             replace_specials (model_name r),
             replace_specials (parameters r),
             replace_specials (humanFileSize (size_bytes r)),
             replace_specials (query r),
             replace_specials (replace_newline_runs (message r)),
             duration_cell big (total_duration r),
             duration_cell big (load_duration r),
             escapeTSVValue big (NumberValue (prompt_eval_count r)),
             duration_cell big (prompt_eval_duration r),
             throughput_cell big (prompt_eval_count r) (prompt_eval_duration r),
             escapeTSVValue big (NumberValue (eval_count r)),
             duration_cell big (eval_duration r),
             throughput_cell big (eval_count r) (eval_duration r),
             replace_specials (created_at r),
             replace_specials (group_id r)]"
    unfolding fields_of_row [OF assms(2)]
    by (simp add: export_row_def duration_cell_def throughput_cell_def)
next
  fix d
  assume "safe_integer d"
  then show "\<bar>cell_value (duration_cell big d) - of_nat d / 1000000\<bar> \<le>
      1 / 200 + of_nat d / 1000000 / 2 ^ 53"
    by (rule duration_cell_near)
qed

lemma clean_ex_big: "\<forall>x. clean (ex_big x)"
  by (simp add: ex_big_def clean_def TAB_def CR_def LF_def)

lemma ex_total_duration_cell: "duration_cell big 3251005000 = ''3251.01''"
  by (simp add: duration_cell_def ex_total_duration ex_total_cell replace_specials_def
      TAB_def CR_def LF_def)

theorem export_is_header_and_one_row_per_record_witness:
  "exportToExcel ex_size ex_big (Some [ex_row]) =
     Download ''responses.tsv'' (bom @ tsvContent ex_size ex_big [ex_row]) \<and>
   split_on LF (tsvContent ex_size ex_big [ex_row]) =
     [join [TAB] headers, join [TAB] (export_row ex_size ex_big ex_row)] \<and>
   length (split_on TAB (join [TAB] headers)) = 16 \<and>
   split_on TAB (join [TAB] (export_row ex_size ex_big ex_row)) =
     [''llama'', ''llama3:8b'', ''8.0B'', ''4661 MB'', ''Say hello'', ''Hi! How are you?'',
      ''3251.01'', ''1.00'', ''11'', ''250.00'', ''44.00'', ''128'', ''3000.00'', ''42.67'',
      ''2025-03-01T10:00:07.000Z'', ''run-1''] \<and>
   \<bar>cell_value ''3251.01'' - 3251005000 / 1000000\<bar> \<le> 1 / 200 + 3251005000 / 1000000 / 2 ^ 53"
proof -
  have ne: "[ex_row] \<noteq> []" by simp
  have safe: "safe_integer 3251005000" by (simp add: safe_integer_def)
  note e = export_is_header_and_one_row_per_record [OF ne clean_ex_big, of ex_size]
  from e have "exportToExcel ex_size ex_big (Some [ex_row]) =
     Download ''responses.tsv'' (bom @ tsvContent ex_size ex_big [ex_row])"
    by (rule conjunct1)
  moreover from e have "split_on LF (tsvContent ex_size ex_big [ex_row]) =
     [join [TAB] headers, join [TAB] (export_row ex_size ex_big ex_row)]"
    by simp
  moreover from e have "length (split_on TAB (join [TAB] headers)) = 16"
    by simp
  moreover from e have "split_on TAB (join [TAB] (export_row ex_size ex_big ex_row)) =
      export_row ex_size ex_big ex_row"
    by (simp add: export_row_def duration_cell_def throughput_cell_def)
  moreover from e safe
  have "\<bar>cell_value (duration_cell ex_big 3251005000) - of_nat 3251005000 / 1000000\<bar> \<le>
      1 / 200 + of_nat 3251005000 / 1000000 / 2 ^ 53"
    by blast
  then have "\<bar>cell_value ''3251.01'' - 3251005000 / 1000000\<bar> \<le>
      1 / 200 + 3251005000 / 1000000 / 2 ^ 53"
    by (simp only: ex_total_duration_cell of_nat_numeral)
  ultimately show ?thesis by (simp only: ex_cells simp_thms)
qed

subsection \<open>The throughput columns\<close>

text \<open>
  Claim C5, as amended. The eleventh and the fourteenth field of a row are the throughput of
  the prompt evaluation and of the response. For a count and a duration that are safe
  integers, with a positive duration, the throughput is the double \<open>count / duration * 1e9\<close>:
  the quotient is rounded, and so is the product, so that the double differs from the exact
  value by three parts in \<open>2^53\<close> at most. The field holds this double written with two
  decimals (when it is below \<open>10^21\<close>), and what it reads differs from the double by half a
  unit of the second decimal at most. With a duration of zero the field is \<open>Infinity\<close> for a
  positive count and \<open>NaN\<close> for a count of zero.
\<close>

theorem throughput_is_the_rounded_quotient:
  assumes "safe_integer c" and "safe_integer d"
  shows "export_row humanFileSize big r ! 10 =
           throughput_cell big (prompt_eval_count r) (prompt_eval_duration r) \<and>
         export_row humanFileSize big r ! 13 =
           throughput_cell big (eval_count r) (eval_duration r) \<and>
         (0 < d \<longrightarrow>
            (\<exists>z. times_constant (divide_fields c d) 1000000000 = Num z \<and> 0 \<le> z \<and>
               \<bar>z - of_nat c / of_nat d * 1000000000\<bar> \<le>
                 3 * (of_nat c / of_nat d * 1000000000) / 2 ^ 53 \<and>
               throughput_cell big c d = replace_specials (fixed2 big z) \<and>
               (z < 10 ^ 21 \<longrightarrow>
                  throughput_cell big c d = fixed2 big z \<and>
                  \<bar>cell_value (throughput_cell big c d) - z\<bar> \<le> 1 / 200))) \<and>
         (d = 0 \<longrightarrow> throughput_cell big c d = (if c = 0 then ''NaN'' else ''Infinity''))"
proof (intro conjI impI)
  show "export_row humanFileSize big r ! 10 =
      throughput_cell big (prompt_eval_count r) (prompt_eval_duration r)"
    by (simp add: export_row_def throughput_cell_def)
  show "export_row humanFileSize big r ! 13 =
      throughput_cell big (eval_count r) (eval_duration r)"
    by (simp add: export_row_def throughput_cell_def)
next
  assume "0 < d"
  with assms show "\<exists>z. times_constant (divide_fields c d) 1000000000 = Num z \<and> 0 \<le> z \<and>
               \<bar>z - of_nat c / of_nat d * 1000000000\<bar> \<le>
                 3 * (of_nat c / of_nat d * 1000000000) / 2 ^ 53 \<and>
               throughput_cell big c d = replace_specials (fixed2 big z) \<and>
               (z < 10 ^ 21 \<longrightarrow>
                  throughput_cell big c d = fixed2 big z \<and>
                  \<bar>cell_value (throughput_cell big c d) - z\<bar> \<le> 1 / 200)"
    by (rule throughput_cell_value)
next
  assume "d = 0"
  then show "throughput_cell big c d = (if c = 0 then ''NaN'' else ''Infinity'')"
    by (simp only: throughput_cell_zero)
qed

lemma ex_eval_rate_text: "throughput_cell big 128 3000000000 = ''42.67''"
  by (simp add: throughput_cell_def ex_eval_rate ex_eval_rate_cell replace_specials_def
      TAB_def CR_def LF_def)

lemma ex_eval_rate_read: "cell_value ''42.67'' = 4267 / 100"
proof -
  have t: "decimal 42 @ ''.'' @ [digit 6, digit 7] = ''42.67''"
    by (simp add: decimal.simps digit_def)
  have "cell_value (decimal 42 @ ''.'' @ [digit 6, digit 7]) =
      of_nat 42 + of_nat (10 * 6 + 7) / 100"
    by (rule cell_value_text) simp_all
  then show ?thesis unfolding t by simp
qed

theorem throughput_is_the_rounded_quotient_witness:
  "safe_integer 128 \<and> safe_integer 3000000000 \<and> safe_integer 0 \<and>
   export_row ex_size ex_big ex_row ! 13 = ''42.67'' \<and>
   times_constant (divide_fields 128 3000000000) 1000000000 =
     Num (6004799503160661 / 140737488355328) \<and>
   \<bar>6004799503160661 / 140737488355328 - 128 / 3000000000 * 1000000000\<bar> \<le>
     3 * (128 / 3000000000 * 1000000000) / (2 ^ 53 :: rat) \<and>
   \<bar>cell_value ''42.67'' - 6004799503160661 / 140737488355328\<bar> \<le> 1 / 200 \<and>
   throughput_cell ex_big 128 0 = ''Infinity'' \<and>
   throughput_cell ex_big 0 0 = ''NaN''"
proof -
  have s: "safe_integer 128" "safe_integer 3000000000" "safe_integer 0"
    by (simp_all add: safe_integer_def)
  note e = throughput_is_the_rounded_quotient [OF s(1,2), of ex_size ex_big ex_row]
  from e have "export_row ex_size ex_big ex_row ! 13 =
      throughput_cell ex_big (eval_count ex_row) (eval_duration ex_row)"
    by blast
  then have c13: "export_row ex_size ex_big ex_row ! 13 = ''42.67''"
    by (simp add: ex_row_def ex_eval_rate_text)
  from e obtain z where
    z: "times_constant (divide_fields 128 3000000000) 1000000000 = Num z"
       "\<bar>z - of_nat 128 / of_nat 3000000000 * 1000000000\<bar> \<le>
          3 * (of_nat 128 / of_nat 3000000000 * 1000000000) / 2 ^ 53"
       "z < 10 ^ 21 \<longrightarrow> \<bar>cell_value (throughput_cell ex_big 128 3000000000) - z\<bar> \<le> 1 / 200"
    by auto
  from z(1) have zv: "z = 6004799503160661 / 140737488355328"
    by (simp add: ex_eval_rate)
  have lt: "z < 10 ^ 21" unfolding zv by simp
  from z(3) lt have near: "\<bar>cell_value ''42.67'' - z\<bar> \<le> 1 / 200"
    by (simp only: ex_eval_rate_text)
  have i: "throughput_cell ex_big 128 0 = ''Infinity''"
    using throughput_is_the_rounded_quotient [OF s(1,3), of ex_size ex_big ex_row] by simp
  have n: "throughput_cell ex_big 0 0 = ''NaN''"
    using throughput_is_the_rounded_quotient [OF s(3,3), of ex_size ex_big ex_row] by simp
  from z(2) have err: "\<bar>z - 128 / 3000000000 * 1000000000\<bar> \<le>
      3 * (128 / 3000000000 * 1000000000) / 2 ^ 53"
    by (simp only: of_nat_numeral)
  from s c13 z(1) err near i n show ?thesis
    unfolding zv by (intro conjI)
qed

text \<open>
  The claim as it stands asks for the exact value. For 128 tokens in 3 seconds the exact
  value is \<open>128 / 3\<close>; the double is another number, and the field reads \<open>42.67\<close>.
\<close>

theorem throughput_is_not_exact:
  "0 < eval_duration ex_row \<and>
   of_nat (eval_count ex_row) / of_nat (eval_duration ex_row) * 1000000000 = (128 / 3 :: rat) \<and>
   times_constant (divide_fields (eval_count ex_row) (eval_duration ex_row)) 1000000000 =
     Num (6004799503160661 / 140737488355328) \<and>
   (6004799503160661 / 140737488355328 :: rat) \<noteq> 128 / 3 \<and>
   export_row ex_size ex_big ex_row ! 13 = ''42.67'' \<and>
   cell_value ''42.67'' = 4267 / 100 \<and>
   (4267 / 100 :: rat) \<noteq> 128 / 3 \<and>
   (4267 / 100 :: rat) \<noteq> 6004799503160661 / 140737488355328"
proof -
  have "export_row ex_size ex_big ex_row ! 13 = ''42.67''"
    by (simp add: ex_cells)
  then show ?thesis
    by (simp add: ex_row_def ex_eval_rate ex_eval_rate_read)
qed

subsection \<open>Tabs and newlines within the texts\<close>

text \<open>
  Claim C6, as amended. Whatever the texts of a record hold, its row has exactly 16 fields,
  no field holds a tab, a carriage return or a newline, and the line of the row splits at
  its tabs into these 16 fields. In the query every tab, carriage return and newline is
  replaced by one space. In the response text every maximal run of carriage returns and
  newlines is replaced by one space, and then every tab by one space. The text that
  \<open>Number::toString\<close> writes holds none of the three characters.
\<close>

theorem row_keeps_16_fields_without_tabs_and_newlines:
  assumes "\<forall>x. clean (big x)"
  shows "length (export_row humanFileSize big r) = 16 \<and>
         (\<forall>cell\<in>set (export_row humanFileSize big r).
            TAB \<notin> set cell \<and> CR \<notin> set cell \<and> LF \<notin> set cell) \<and>
         split_on TAB (join [TAB] (export_row humanFileSize big r)) =
           export_row humanFileSize big r \<and>
         LF \<notin> set (join [TAB] (export_row humanFileSize big r)) \<and>
         export_row humanFileSize big r ! 4 =
           map (\<lambda>c. if c = TAB \<or> c = CR \<or> c = LF then CHR '' '' else c) (query r) \<and>
         export_row humanFileSize big r ! 5 =
           map (\<lambda>c. if c = TAB then CHR '' '' else c) (replace_newline_runs (message r))"
proof (intro conjI ballI)
  show "length (export_row humanFileSize big r) = 16" by simp
  show "split_on TAB (join [TAB] (export_row humanFileSize big r)) =
      export_row humanFileSize big r"
    using assms by (rule fields_of_row)
  show "LF \<notin> set (join [TAB] (export_row humanFileSize big r))"
    using clean_export_row [OF assms] by (intro LF_not_in_line) blast
  show "export_row humanFileSize big r ! 4 =
      map (\<lambda>c. if c = TAB \<or> c = CR \<or> c = LF then CHR '' '' else c) (query r)"
    by (simp add: export_row_def replace_specials_def)
  show "export_row humanFileSize big r ! 5 =
      map (\<lambda>c. if c = TAB then CHR '' '' else c) (replace_newline_runs (message r))"
    by (simp add: export_row_def replace_specials_after_runs)
next
  fix cell
  assume "cell \<in> set (export_row humanFileSize big r)"
  with assms have "clean cell" by (rule clean_export_row)
  then show "TAB \<notin> set cell" "CR \<notin> set cell" "LF \<notin> set cell"
    by (simp_all add: clean_def)
qed

theorem row_keeps_16_fields_without_tabs_and_newlines_witness:
  "length (export_row ex_size ex_big ex_row) = 16 \<and>
   TAB \<in> set (query ex_row) \<and> CR \<in> set (message ex_row) \<and> LF \<in> set (message ex_row) \<and>
   list_all clean (export_row ex_size ex_big ex_row) \<and>
   split_on TAB (join [TAB] (export_row ex_size ex_big ex_row)) =
     [''llama'', ''llama3:8b'', ''8.0B'', ''4661 MB'', ''Say hello'', ''Hi! How are you?'',
      ''3251.01'', ''1.00'', ''11'', ''250.00'', ''44.00'', ''128'', ''3000.00'', ''42.67'',
      ''2025-03-01T10:00:07.000Z'', ''run-1''] \<and>
   export_row ex_size ex_big ex_row ! 4 = ''Say hello'' \<and>
   export_row ex_size ex_big ex_row ! 5 = ''Hi! How are you?''"
proof -
  note e = row_keeps_16_fields_without_tabs_and_newlines [OF clean_ex_big, of ex_size ex_row]
  from e have "length (export_row ex_size ex_big ex_row) = 16" by (rule conjunct1)
  moreover have "TAB \<in> set (query ex_row)" "CR \<in> set (message ex_row)"
    "LF \<in> set (message ex_row)"
    by (simp_all add: ex_row_def)
  moreover from e have "list_all clean (export_row ex_size ex_big ex_row)"
    unfolding list_all_iff clean_def by blast
  moreover from e have "split_on TAB (join [TAB] (export_row ex_size ex_big ex_row)) =
      export_row ex_size ex_big ex_row"
    by blast
  ultimately show ?thesis by (simp add: ex_cells)
qed

text \<open>
  The claim as it stands has each of these characters replaced by a space of its own. In
  the response text a carriage return and the newline after it become one space together:
  the field is shorter than the text.
\<close>

theorem newline_run_becomes_one_space:
  "message ex_row = ''Hi!'' @ [CR, LF] @ ''How are you?'' \<and>
   export_row ex_size ex_big ex_row ! 5 = ''Hi! How are you?'' \<and>
   map (\<lambda>c. if c = TAB \<or> c = CR \<or> c = LF then CHR '' '' else c) (message ex_row) =
     ''Hi!  How are you?'' \<and>
   length (export_row ex_size ex_big ex_row ! 5) < length (message ex_row)"
proof -
  have "export_row ex_size ex_big ex_row ! 5 = ''Hi! How are you?''"
    by (simp add: ex_cells)
  then show ?thesis
    by (simp add: ex_row_def TAB_def CR_def LF_def)
qed

end
